theory Spec2Isabelle
  imports Complex_Main "HOL-Library.Sublist"
begin

section \<open>Strings and the regular expressions of the decoder\<close>

text \<open>
  A JavaScript string is a sequence of code units. A \<^typ>\<open>char\<close> stands for a code unit
  below 256, so \<^typ>\<open>string\<close> covers the texts whose code units are all in that range.
  White space, as \<^verbatim>\<open>String.prototype.trim\<close> and the class \<^verbatim>\<open>\s\<close> see it in that
  range: TAB, LF, VT, FF, CR, SPACE and NO-BREAK SPACE.
\<close>

definition is_space :: "char \<Rightarrow> bool" where
  "is_space c \<longleftrightarrow>
     c = CHR 0x09 \<or> c = CHR 0x0A \<or> c = CHR 0x0B \<or> c = CHR 0x0C \<or> c = CHR 0x0D \<or>
     c = CHR 0x20 \<or> c = CHR 0xA0"

definition trim :: "string \<Rightarrow> string" where
  "trim s = rev (dropWhile is_space (rev (dropWhile is_space s)))"

text \<open>
  \<open>index_of p s\<close> finds the leftmost occurrence of the literal \<open>p\<close> in \<open>s\<close> and returns the
  text before it and the text after it.
\<close>

fun index_of :: "string \<Rightarrow> string \<Rightarrow> (string \<times> string) option" where
  "index_of p [] = (if p = [] then Some ([], []) else None)"
| "index_of p (c # cs) =
     (if prefix p (c # cs) then Some ([], drop (length p) (c # cs))
      else map_option (\<lambda>(a, b). (c # a, b)) (index_of p cs))"

text \<open>
  \<open>match_between opn cls s\<close> is capture group 1 of \<^verbatim>\<open>s.match(/opn([\s\S]*?)cls/)\<close> for
  literal \<open>opn\<close> and \<open>cls\<close>: the match starts at the leftmost \<open>opn\<close>, and the lazy group
  stops at the first \<open>cls\<close> that follows it. When the leftmost \<open>opn\<close> has no \<open>cls\<close> after
  it, no later start has one either, and the match is \<^verbatim>\<open>null\<close>.
\<close>

definition match_between :: "string \<Rightarrow> string \<Rightarrow> string \<Rightarrow> string option" where
  "match_between opn cls s =
     (case index_of opn s of
        None \<Rightarrow> None
      | Some (_, rest) \<Rightarrow>
          (case index_of cls rest of
             None \<Rightarrow> None
           | Some (body, _) \<Rightarrow> Some body))"

section \<open>Reasoning and answer extraction\<close>

definition THINK_OPEN :: string where
  "THINK_OPEN = ''<think_never_used_51bce0c785ca2f68081bfa7d91973934>''"

definition THINK_CLOSE :: string where
  "THINK_CLOSE = ''</think_never_used_51bce0c785ca2f68081bfa7d91973934>''"

definition extractThinkContent :: "string \<Rightarrow> string" where
  "extractThinkContent content =
     (case match_between THINK_OPEN THINK_CLOSE content of
        Some g \<Rightarrow> trim g
      | None \<Rightarrow> [])"

definition extractAnswerContent :: "string \<Rightarrow> string" where
  "extractAnswerContent content =
     (case match_between ''<answer>'' ''</answer>'' content of
        Some g \<Rightarrow> trim g
      | None \<Rightarrow> [])"

section \<open>Values of the host language\<close>

text \<open>
  A Number is a double. \<open>Near q\<close> is the Number value for the rational \<open>q\<close>: the double
  nearest to \<open>q\<close> (ties to even), which is \<open>q\<close> itself for every integer of magnitude at
  most \<open>2 ^ 53\<close>, and \<open>+0\<close> when \<open>\<bar>q\<bar> \<le> 2 powi - 1075\<close>. The embedding keeps the
  rational and never rounds.
\<close>

datatype jsnum = NaN | Infinity bool | NegZero | Near rat

text \<open>
  \<open>JObj\<close> lists the own properties of an ordinary object in the order in which
  \<^verbatim>\<open>Object.keys\<close> and \<^verbatim>\<open>JSON.stringify\<close> enumerate them.
\<close>

datatype jsvalue =
    JUndefined
  | JNull
  | JBool bool
  | JNum jsnum
  | JStr string
  | JArr "jsvalue list"
  | JObj "(string \<times> jsvalue) list"

datatype js_error = SyntaxError | TypeError

type_synonym props = "(string \<times> jsvalue) list"

definition is_digit :: "char \<Rightarrow> bool" where
  "is_digit c \<longleftrightarrow> c \<in> set ''0123456789''"

definition digit_value :: "char \<Rightarrow> nat" where
  "digit_value c = of_char c - 48"

definition digits_value :: "string \<Rightarrow> nat" where
  "digits_value ds = foldl (\<lambda>n c. 10 * n + digit_value c) 0 ds"

text \<open>
  An array index is the canonical decimal form of an integer from 0 to \<open>2 ^ 32 - 2\<close>.
  An ordinary object enumerates its array-index keys first, in ascending numeric order,
  then its other string keys in the order of their creation.
\<close>

definition is_array_index :: "string \<Rightarrow> bool" where
  "is_array_index k \<longleftrightarrow>
     k \<noteq> [] \<and> list_all is_digit k \<and> (k = ''0'' \<or> hd k \<noteq> CHR ''0'') \<and>
     digits_value k < 4294967295"

fun insert_index :: "string \<Rightarrow> jsvalue \<Rightarrow> props \<Rightarrow> props" where
  "insert_index k v [] = [(k, v)]"
| "insert_index k v ((k', v') # ps) =
     (if is_array_index k' \<and> digits_value k' < digits_value k
      then (k', v') # insert_index k v ps
      else (k, v) # (k', v') # ps)"

text \<open>
  \<open>obj_set ps k v\<close> is the assignment \<^verbatim>\<open>o[k] = v\<close> on an object created by \<^verbatim>\<open>{}\<close>.
  The key \<^verbatim>\<open>__proto__\<close> reaches the accessor of \<^verbatim>\<open>Object.prototype\<close>, which creates no
  own property. An existing property keeps its place and takes the new value.
\<close>

definition obj_set :: "props \<Rightarrow> string \<Rightarrow> jsvalue \<Rightarrow> props" where
  "obj_set ps k v =
     (if k = ''__proto__'' then ps
      else if k \<in> fst ` set ps then map (\<lambda>(k', v'). if k' = k then (k', v) else (k', v')) ps
      else if is_array_index k then insert_index k v ps
      else ps @ [(k, v)])"

text \<open>
  \<open>get_field x k\<close> is the property read \<^verbatim>\<open>x.k\<close> for the two keys the decoder reads,
  \<^verbatim>\<open>name\<close> and \<^verbatim>\<open>parameters\<close>: a TypeError on \<^verbatim>\<open>null\<close> and \<^verbatim>\<open>undefined\<close>, the own
  property of an object, and \<^verbatim>\<open>undefined\<close> on every other value (neither key is
  inherited by a plain object, an array or a primitive).
\<close>

fun get_field :: "jsvalue \<Rightarrow> string \<Rightarrow> js_error + jsvalue" where
  "get_field JUndefined k = Inl TypeError"
| "get_field JNull k = Inl TypeError"
| "get_field (JObj ps) k = Inr (case map_of ps k of Some v \<Rightarrow> v | None \<Rightarrow> JUndefined)"
| "get_field _ k = Inr JUndefined"

fun num_truthy :: "jsnum \<Rightarrow> bool" where
  "num_truthy NaN = False"
| "num_truthy (Infinity _) = True"
| "num_truthy NegZero = False"
| "num_truthy (Near q) = (\<not> \<bar>q\<bar> \<le> 1 / 2 ^ 1075)"

fun truthy :: "jsvalue \<Rightarrow> bool" where
  "truthy JUndefined = False"
| "truthy JNull = False"
| "truthy (JBool b) = b"
| "truthy (JNum n) = num_truthy n"
| "truthy (JStr s) = (s \<noteq> [])"
| "truthy (JArr _) = True"
| "truthy (JObj _) = True"

subsection \<open>\<^verbatim>\<open>Number(string)\<close>\<close>

definition radix_value :: "nat \<Rightarrow> string \<Rightarrow> nat" where
  "radix_value b ds =
     foldl (\<lambda>n c. b * n +
        (if is_digit c then digit_value c
         else if c \<in> set ''abcdef'' then of_char c - 87
         else of_char c - 55)) 0 ds"

definition radix_literal :: "nat \<Rightarrow> string \<Rightarrow> string \<Rightarrow> jsnum" where
  "radix_literal b digs ds =
     (if ds \<noteq> [] \<and> list_all (\<lambda>c. c \<in> set digs) ds
      then Near (of_nat (radix_value b ds)) else NaN)"

definition exponent_part :: "string \<Rightarrow> int option" where
  "exponent_part r =
     (case r of
        [] \<Rightarrow> Some 0
      | c # t \<Rightarrow>
          if c = CHR ''e'' \<or> c = CHR ''E'' then
            (let (neg, ds) =
               (case t of
                  [] \<Rightarrow> (False, [])
                | d # u \<Rightarrow>
                    if d = CHR ''+'' then (False, u)
                    else if d = CHR ''-'' then (True, u)
                    else (False, t))
             in if ds \<noteq> [] \<and> list_all is_digit ds
                then Some (if neg then - int (digits_value ds) else int (digits_value ds))
                else None)
          else None)"

text \<open>
  The mathematical value of an unsigned decimal literal: digits, an optional fraction
  and an optional exponent, with a digit before or after the point.
\<close>

definition str_decimal :: "string \<Rightarrow> rat option" where
  "str_decimal s =
     (let ip = takeWhile is_digit s;
          r1 = dropWhile is_digit s;
          fp = (case r1 of [] \<Rightarrow> [] | c # t \<Rightarrow> if c = CHR ''.'' then takeWhile is_digit t else []);
          r2 = (case r1 of [] \<Rightarrow> [] | c # t \<Rightarrow> if c = CHR ''.'' then dropWhile is_digit t else r1)
      in if ip = [] \<and> fp = [] then None
         else (case exponent_part r2 of
                 None \<Rightarrow> None
               | Some e \<Rightarrow>
                   (let m = of_nat (digits_value (ip @ fp)); x = e - int (length fp)
                    in Some (if 0 \<le> x then m * 10 ^ nat x else m / 10 ^ nat (- x)))))"

definition Number_js :: "string \<Rightarrow> jsnum" where
  "Number_js s =
     (let t = trim s in
      if t = [] then Near 0
      else if prefix ''0x'' t \<or> prefix ''0X'' t
        then radix_literal 16 ''0123456789abcdefABCDEF'' (drop 2 t)
      else if prefix ''0o'' t \<or> prefix ''0O'' t then radix_literal 8 ''01234567'' (drop 2 t)
      else if prefix ''0b'' t \<or> prefix ''0B'' t then radix_literal 2 ''01'' (drop 2 t)
      else
        (let neg = prefix ''-'' t;
             u = (if prefix ''-'' t \<or> prefix ''+'' t then tl t else t)
         in if u = ''Infinity'' then Infinity neg
            else (case str_decimal u of
                    None \<Rightarrow> NaN
                  | Some q \<Rightarrow> if neg then (if q = 0 then NegZero else Near (- q)) else Near q)))"

section \<open>The host and the invocation identifier\<close>

text \<open>
  The built-ins whose results the decoder only passes on are parameters: the \<open>k\<close>-th
  reading of \<^verbatim>\<open>Date.now()\<close> (an integer of milliseconds), the \<open>k\<close>-th
  \<^verbatim>\<open>Math.random().toString(36)\<close>, \<^verbatim>\<open>JSON.parse\<close> (a value or a SyntaxError) and
  \<^verbatim>\<open>JSON.stringify\<close>.
\<close>

record host =
  Date_now :: "nat \<Rightarrow> int"
  Math_random_36 :: "nat \<Rightarrow> string"
  JSON_parse :: "string \<Rightarrow> js_error + jsvalue"
  JSON_stringify :: "jsvalue \<Rightarrow> string"

fun show_nat :: "nat \<Rightarrow> string" where
  "show_nat n =
     (if n < 10 then [''0123456789'' ! n]
      else show_nat (n div 10) @ [''0123456789'' ! (n mod 10)])"

definition show_int :: "int \<Rightarrow> string" where
  "show_int i = (if i < 0 then CHR ''-'' # show_nat (nat (- i)) else show_nat (nat i))"

definition substring :: "nat \<Rightarrow> nat \<Rightarrow> string \<Rightarrow> string" where
  "substring a b s = take (b - a) (drop a s)"

definition generateToolCallId :: "host \<Rightarrow> nat \<Rightarrow> string" where
  "generateToolCallId h k =
     ''call_'' @ show_int (Date_now h k) @ ''_'' @ substring 2 11 (Math_random_36 h k)"

record tool_call =
  call_id :: string
  call_type :: string
  function_name :: jsvalue
  function_arguments :: string

record ParsedContent =
  answer :: string
  think :: string
  tools :: "tool_call list option"

definition make_result :: "string \<Rightarrow> string \<Rightarrow> tool_call list \<Rightarrow> ParsedContent" where
  "make_result th an ts =
     \<lparr>answer = an, think = th, tools = (if length ts > 0 then Some ts else None)\<rparr>"

section \<open>Code environment\<close>

text \<open>
  \<open>marker_at m s\<close> matches \<^verbatim>\<open>m([^>]+)>\<close> at the start of \<open>s\<close> for a literal \<open>m\<close>: the
  greedy class takes the whole run without \<^verbatim>\<open>>\<close>, which must be non-empty and followed
  by \<^verbatim>\<open>>\<close>. The result is group 1 and the text after the match.
  \<open>match_marker m s\<close> is the leftmost such match in \<open>s\<close>.
\<close>

definition marker_at :: "string \<Rightarrow> string \<Rightarrow> (string \<times> string) option" where
  "marker_at m s =
     (if prefix m s then
        (let t = drop (length m) s;
             g = takeWhile (\<lambda>c. c \<noteq> CHR ''>'') t;
             r = dropWhile (\<lambda>c. c \<noteq> CHR ''>'') t
         in if g \<noteq> [] \<and> r \<noteq> [] then Some (g, tl r) else None)
      else None)"

fun match_marker :: "string \<Rightarrow> string \<Rightarrow> (string \<times> string) option" where
  "match_marker m [] = None"
| "match_marker m (c # cs) =
     (case marker_at m (c # cs) of
        Some r \<Rightarrow> Some r
      | None \<Rightarrow> match_marker m cs)"

lemma marker_at_shorter: "marker_at m s = Some (g, r) \<Longrightarrow> length r < length s"
proof -
  assume a: "marker_at m s = Some (g, r)"
  let ?t = "drop (length m) s"
  let ?d = "dropWhile (\<lambda>c. c \<noteq> CHR ''>'') ?t"
  from a have d: "?d \<noteq> []" and r: "r = tl ?d"
    by (auto simp: marker_at_def Let_def split: if_splits)
  have "length ?d \<le> length ?t" by (rule length_dropWhile_le)
  moreover have "length ?t \<le> length s" by simp
  moreover from d r have "length r < length ?d" by (cases ?d) auto
  ultimately show ?thesis by linarith
qed

lemma match_marker_shorter: "match_marker m s = Some (g, r) \<Longrightarrow> length r < length s"
proof (induction s)
  case Nil
  then show ?case by simp
next
  case (Cons c cs)
  show ?case
  proof (cases "marker_at m (c # cs)")
    case None
    with Cons show ?thesis by fastforce
  next
    case (Some p)
    with Cons.prems have "marker_at m (c # cs) = Some (g, r)" by simp
    then show ?thesis by (rule marker_at_shorter)
  qed
qed

text \<open>
  The matches of \<^verbatim>\<open>s.matchAll(/<parameter=([^>]+)>([^<]*)/g)\<close>, as pairs of group 1 and
  group 2. Group 2 is the run without \<^verbatim>\<open><\<close> that follows the marker; the next match is
  searched from the end of that run.
\<close>

function parameterMatches :: "string \<Rightarrow> (string \<times> string) list" where
  "parameterMatches s =
     (case match_marker ''<parameter='' s of
        None \<Rightarrow> []
      | Some (k, rest) \<Rightarrow>
          (k, takeWhile (\<lambda>c. c \<noteq> CHR ''<'') rest)
            # parameterMatches (dropWhile (\<lambda>c. c \<noteq> CHR ''<'') rest))"
  by pat_completeness auto
termination
proof (relation "measure length")
  show "wf (measure length)" by simp
next
  fix s :: string and x2 :: "string \<times> string" and k rest :: string
  assume "match_marker ''<parameter='' s = Some x2" and "(k, rest) = x2"
  then have "match_marker ''<parameter='' s = Some (k, rest)" by simp
  then have "length rest < length s" by (rule match_marker_shorter)
  moreover have "length (dropWhile (\<lambda>c. c \<noteq> CHR ''<'') rest) \<le> length rest"
    by (rule length_dropWhile_le)
  ultimately show "(dropWhile (\<lambda>c. c \<noteq> CHR ''<'') rest, s) \<in> measure length" by simp
qed

declare parameterMatches.simps [simp del]

text \<open>The loop \<^verbatim>\<open>for (const match of parameterMatches) parameters[match[1]] = match[2]\<close>.\<close>

definition code_parameters :: "(string \<times> string) list \<Rightarrow> props" where
  "code_parameters ms = foldl (\<lambda>ps (k, v). obj_set ps k (JStr v)) [] ms"

definition code_tools :: "host \<Rightarrow> string \<Rightarrow> tool_call list" where
  "code_tools h content =
     (case match_between ''<code_env>'' ''</code_env>'' content of
        None \<Rightarrow> []
      | Some codeEnvContent \<Rightarrow>
          (case match_marker ''<function='' codeEnvContent of
             None \<Rightarrow> []
           | Some (functionName, _) \<Rightarrow>
               [\<lparr>call_id = generateToolCallId h 0,
                 call_type = ''function'',
                 function_name = JStr functionName,
                 function_arguments =
                   JSON_stringify h (JObj (code_parameters (parameterMatches codeEnvContent)))\<rparr>]))"

text \<open>
  A decoder either returns a \<open>ParsedContent\<close> (\<open>Inr\<close>) or throws (\<open>Inl\<close>). No operation
  of \<^verbatim>\<open>parseCodeContent\<close> can throw.
\<close>

definition parseCodeContent :: "host \<Rightarrow> string \<Rightarrow> js_error + ParsedContent" where
  "parseCodeContent h content =
     Inr (make_result (extractThinkContent content) (extractAnswerContent content)
            (code_tools h content))"

section \<open>Tool environment\<close>

definition make_tool :: "host \<Rightarrow> nat \<Rightarrow> jsvalue \<Rightarrow> jsvalue \<Rightarrow> tool_call" where
  "make_tool h k n p =
     \<lparr>call_id = generateToolCallId h k,
      call_type = ''function'',
      function_name = n,
      function_arguments = JSON_stringify h p\<rparr>"

text \<open>
  The loop over the parsed descriptors. It runs inside the \<^verbatim>\<open>try\<close> block and appends to
  \<^verbatim>\<open>tools\<close>, which is declared outside of it: the result is the error thrown, if any,
  and \<^verbatim>\<open>tools\<close> as the loop left it. The \<open>k\<close>-th identifier is drawn for the \<open>k\<close>-th
  invocation appended.
\<close>

fun mcp_loop :: "host \<Rightarrow> jsvalue list \<Rightarrow> tool_call list \<Rightarrow> js_error option \<times> tool_call list" where
  "mcp_loop h [] ts = (None, ts)"
| "mcp_loop h (call # calls) ts =
     (case get_field call ''name'' of
        Inl e \<Rightarrow> (Some e, ts)
      | Inr n \<Rightarrow>
          if truthy n then
            (case get_field call ''parameters'' of
               Inl e \<Rightarrow> (Some e, ts)
             | Inr p \<Rightarrow>
                 if truthy p
                 then mcp_loop h calls (ts @ [make_tool h (length ts) n p])
                 else mcp_loop h calls ts)
          else mcp_loop h calls ts)"

text \<open>
  The body of the \<^verbatim>\<open>try\<close> block: \<^verbatim>\<open>JSON.parse\<close> of the bracketed payload, then the
  loop. \<^verbatim>\<open>for ... of\<close> iterates an array; a string iterates its characters, none of
  which has a \<^verbatim>\<open>name\<close>; any other value is not iterable.
\<close>

definition mcp_try :: "host \<Rightarrow> string \<Rightarrow> js_error option \<times> tool_call list" where
  "mcp_try h payload =
     (case JSON_parse h (''['' @ payload @ '']'') of
        Inl e \<Rightarrow> (Some e, [])
      | Inr functionCallData \<Rightarrow>
          (case functionCallData of
             JArr calls \<Rightarrow> mcp_loop h calls []
           | JStr _ \<Rightarrow> (None, [])
           | _ \<Rightarrow> (Some TypeError, [])))"

text \<open>
  The \<^verbatim>\<open>try\<close> statement with its handler: the handler passes the error to
  \<^verbatim>\<open>console.error\<close> and completes normally. The result is what escapes the statement,
  what was logged, and \<^verbatim>\<open>tools\<close>.
\<close>

definition mcp_try_catch ::
  "host \<Rightarrow> string \<Rightarrow> js_error option \<times> js_error option \<times> tool_call list" where
  "mcp_try_catch h payload =
     (case mcp_try h payload of
        (Some e, ts) \<Rightarrow> (None, Some e, ts)
      | (None, ts) \<Rightarrow> (None, None, ts))"

definition mcp_statements ::
  "host \<Rightarrow> string \<Rightarrow> js_error option \<times> js_error option \<times> tool_call list" where
  "mcp_statements h content =
     (case match_between ''<mcp_env>'' ''</mcp_env>'' content of
        None \<Rightarrow> (None, None, [])
      | Some mcpEnvContent \<Rightarrow>
          (case match_between ''<|FunctionCallBegin|>['' '']<|FunctionCallEnd|>'' mcpEnvContent of
             None \<Rightarrow> (None, None, [])
           | Some payload \<Rightarrow> mcp_try_catch h payload))"

definition mcp_tools :: "host \<Rightarrow> string \<Rightarrow> tool_call list" where
  "mcp_tools h content = snd (snd (mcp_statements h content))"

definition parseMcpContent :: "host \<Rightarrow> string \<Rightarrow> js_error + ParsedContent" where
  "parseMcpContent h content =
     (case mcp_statements h content of
        (Some e, _, _) \<Rightarrow> Inl e
      | (None, _, ts) \<Rightarrow>
          Inr (make_result (extractThinkContent content) (extractAnswerContent content) ts))"

section \<open>Pointer environment\<close>

definition is_word :: "char \<Rightarrow> bool" where
  "is_word c \<longleftrightarrow>
     c \<in> set ''abcdefghijklmnopqrstuvwxyzABCDEFGHIJKLMNOPQRSTUVWXYZ0123456789_''"

text \<open>
  \<open>action_at s\<close> matches \<^verbatim>\<open>Action:\s*(\w+)\(([^)]*)\)\<close> at the start of \<open>s\<close>. Each greedy
  class takes its whole run: a shorter one would leave a character of the class where the
  next item of the pattern cannot match. The result is groups 1 and 2.
\<close>

definition action_at :: "string \<Rightarrow> (string \<times> string) option" where
  "action_at s =
     (if prefix ''Action:'' s then
        (let t = dropWhile is_space (drop (length ''Action:'') s);
             nm = takeWhile is_word t;
             r = dropWhile is_word t
         in if nm = [] then None
            else (case r of
                    [] \<Rightarrow> None
                  | c # u \<Rightarrow>
                      if c = CHR ''('' \<and> dropWhile (\<lambda>c. c \<noteq> CHR '')'') u \<noteq> []
                      then Some (nm, takeWhile (\<lambda>c. c \<noteq> CHR '')'') u)
                      else None))
      else None)"

fun match_action :: "string \<Rightarrow> (string \<times> string) option" where
  "match_action [] = None"
| "match_action (c # cs) =
     (case action_at (c # cs) of
        Some r \<Rightarrow> Some r
      | None \<Rightarrow> match_action cs)"

definition POINT_OPEN :: string where
  "POINT_OPEN = ''point='' @ [CHR 0x27] @ ''<point>''"

definition POINT_CLOSE :: string where
  "POINT_CLOSE = ''</point>'' @ [CHR 0x27]"

text \<open>
  \<open>point_at s\<close> matches \<^verbatim>\<open>point='<point>([^<]+)<\/point>'\<close> at the start of \<open>s\<close> and
  returns group 1 and the text after the match; \<open>match_point s\<close> is the leftmost match,
  with the text before it.
\<close>

definition point_at :: "string \<Rightarrow> (string \<times> string) option" where
  "point_at s =
     (if prefix POINT_OPEN s then
        (let t = drop (length POINT_OPEN) s;
             g = takeWhile (\<lambda>c. c \<noteq> CHR ''<'') t;
             r = dropWhile (\<lambda>c. c \<noteq> CHR ''<'') t
         in if g \<noteq> [] \<and> prefix POINT_CLOSE r
            then Some (g, drop (length POINT_CLOSE) r) else None)
      else None)"

fun match_point :: "string \<Rightarrow> (string \<times> string \<times> string) option" where
  "match_point [] = None"
| "match_point (c # cs) =
     (case point_at (c # cs) of
        Some (g, r) \<Rightarrow> Some ([], g, r)
      | None \<Rightarrow> map_option (\<lambda>(b, g, r). (c # b, g, r)) (match_point cs))"

text \<open>\<^verbatim>\<open>s.split(d)\<close> for a separator of one character.\<close>

fun split_on :: "char \<Rightarrow> string \<Rightarrow> string list" where
  "split_on d [] = [[]]"
| "split_on d (c # cs) =
     (let r = split_on d cs in if c = d then [] # r else (c # hd r) # tl r)"

text \<open>
  \<^verbatim>\<open>const [x, y] = g.split(' ').map(Number)\<close> and the object \<^verbatim>\<open>{ x, y }\<close>: a component
  that the list does not have is \<^verbatim>\<open>undefined\<close>.
\<close>

definition point_value :: "string \<Rightarrow> jsvalue" where
  "point_value g =
     (let ns = map Number_js (split_on CHR '' '' g);
          x = (case ns of [] \<Rightarrow> JUndefined | a # _ \<Rightarrow> JNum a);
          y = (case ns of a # b # _ \<Rightarrow> JNum b | _ \<Rightarrow> JUndefined)
      in JObj [(''x'', x), (''y'', y)])"

text \<open>\<^verbatim>\<open>value.replace(/^['"]|['"]$/g, '')\<close>: one quote at the start, then one at the end.\<close>

definition is_quote :: "char \<Rightarrow> bool" where
  "is_quote c \<longleftrightarrow> c = CHR 0x27 \<or> c = CHR 0x22"

definition strip_quotes :: "string \<Rightarrow> string" where
  "strip_quotes v =
     (let v1 = (if v \<noteq> [] \<and> is_quote (hd v) then tl v else v)
      in if v1 \<noteq> [] \<and> is_quote (last v1) then butlast v1 else v1)"

text \<open>
  One turn of the loop over \<^verbatim>\<open>otherParams\<close>: the key and value are the first two pieces
  of the trimmed parameter split at \<^verbatim>\<open>=\<close>, each trimmed; the value is \<^verbatim>\<open>undefined\<close>
  when there is one piece only. Nothing is stored when either is empty or missing.
\<close>

definition other_param :: "props \<Rightarrow> string \<Rightarrow> props" where
  "other_param ps param =
     (let trimmed = trim param in
      if trimmed = [] then ps
      else (case map trim (split_on CHR ''='' trimmed) of
              key # value # _ \<Rightarrow>
                if key \<noteq> [] \<and> value \<noteq> [] then obj_set ps key (JStr (strip_quotes value))
                else ps
            | _ \<Rightarrow> ps))"

definition computer_parameters :: "string \<Rightarrow> props" where
  "computer_parameters actionParams =
     (let pointMatch = match_point actionParams;
          parameters = (case pointMatch of
                          None \<Rightarrow> []
                        | Some (_, g, _) \<Rightarrow> obj_set [] ''point'' (point_value g));
          otherParams = split_on CHR '',''
                          (case pointMatch of
                             None \<Rightarrow> actionParams
                           | Some (b, _, r) \<Rightarrow> b @ r)
      in foldl other_param parameters otherParams)"

definition computer_tools :: "host \<Rightarrow> string \<Rightarrow> tool_call list" where
  "computer_tools h content =
     (case match_between ''<computer_env>'' ''</computer_env>'' content of
        None \<Rightarrow> []
      | Some g \<Rightarrow>
          (case match_action (trim g) of
             None \<Rightarrow> []
           | Some (actionName, actionParams) \<Rightarrow>
               [\<lparr>call_id = generateToolCallId h 0,
                 call_type = ''function'',
                 function_name = JStr actionName,
                 function_arguments = JSON_stringify h (JObj (computer_parameters actionParams))\<rparr>]))"

definition parseComputerContent :: "host \<Rightarrow> string \<Rightarrow> js_error + ParsedContent" where
  "parseComputerContent h content =
     Inr (make_result (extractThinkContent content) (extractAnswerContent content)
            (computer_tools h content))"

section \<open>Regions of a text\<close>

text \<open>
  \<open>has_region opn cls s\<close>: the text \<open>s\<close> holds \<open>opn\<close> with \<open>cls\<close> somewhere after it.
  \<open>first_region opn cls s body\<close>: \<open>body\<close> is what lies between the leftmost \<open>opn\<close> of
  \<open>s\<close> and the first \<open>cls\<close> that follows it.
\<close>

definition has_region :: "string \<Rightarrow> string \<Rightarrow> string \<Rightarrow> bool" where
  "has_region opn cls s \<longleftrightarrow> (\<exists>pre body post. s = pre @ opn @ body @ cls @ post)"

definition first_region :: "string \<Rightarrow> string \<Rightarrow> string \<Rightarrow> string \<Rightarrow> bool" where
  "first_region opn cls s body \<longleftrightarrow>
     (\<exists>pre post. s = pre @ opn @ body @ cls @ post \<and>
        (\<forall>a b. s = a @ opn @ b \<longrightarrow> length pre \<le> length a) \<and>
        (\<forall>a b. body @ cls @ post = a @ cls @ b \<longrightarrow> length body \<le> length a))"

section \<open>Decoded invocations and grammar of the regions\<close>

text \<open>The invocations a result carries: none when the \<^verbatim>\<open>tools\<close> field is absent.\<close>

definition actions :: "ParsedContent \<Rightarrow> tool_call list" where
  "actions p = (case tools p of None \<Rightarrow> [] | Some ts \<Rightarrow> ts)"

text \<open>What an invocation holds besides its identifier.\<close>

definition call_content :: "tool_call \<Rightarrow> string \<times> jsvalue \<times> string" where
  "call_content t = (call_type t, function_name t, function_arguments t)"

definition result_content ::
  "js_error + ParsedContent \<Rightarrow> js_error + string \<times> string \<times> (string \<times> jsvalue \<times> string) list option" where
  "result_content r =
     (case r of
        Inl e \<Rightarrow> Inl e
      | Inr p \<Rightarrow> Inr (think p, answer p, map_option (map call_content) (tools p)))"

text \<open>
  \<open>has_marker m s\<close>: the text holds the literal \<open>m\<close>, a non-empty name without \<^verbatim>\<open>>\<close> and
  then \<^verbatim>\<open>>\<close>. \<open>has_action s\<close>: the text holds \<^verbatim>\<open>Action:\<close>, white space, a non-empty
  word, and an argument list in parentheses without \<^verbatim>\<open>)\<close> inside.
\<close>

definition has_marker :: "string \<Rightarrow> string \<Rightarrow> bool" where
  "has_marker m s \<longleftrightarrow>
     (\<exists>a g b. s = a @ m @ g @ ''>'' @ b \<and> g \<noteq> [] \<and> CHR ''>'' \<notin> set g)"

definition has_action :: "string \<Rightarrow> bool" where
  "has_action s \<longleftrightarrow>
     (\<exists>a ws nm args b. s = a @ ''Action:'' @ ws @ nm @ ''('' @ args @ '')'' @ b \<and>
        list_all is_space ws \<and> nm \<noteq> [] \<and> list_all is_word nm \<and> CHR '')'' \<notin> set args)"

text \<open>
  The texts \<^verbatim>\<open>Math.random().toString(36)\<close> can return for a Number in \<open>[0, 1)\<close>:
  \<^verbatim>\<open>0\<close>, or \<^verbatim>\<open>0.\<close> followed by digits of radix 36.
\<close>

definition is_base36 :: "char \<Rightarrow> bool" where
  "is_base36 c \<longleftrightarrow> c \<in> set ''0123456789abcdefghijklmnopqrstuvwxyz''"

definition is_radix36 :: "string \<Rightarrow> bool" where
  "is_radix36 r \<longleftrightarrow>
     r = ''0'' \<or> (prefix ''0.'' r \<and> drop 2 r \<noteq> [] \<and> list_all is_base36 (drop 2 r))"

text \<open>
  \<open>prop_of d k\<close>: the value of the property \<open>k\<close> of a descriptor, \<^verbatim>\<open>undefined\<close> when
  the descriptor has no such property or is not an object. \<open>emits d\<close>: both \<^verbatim>\<open>name\<close>
  and \<^verbatim>\<open>parameters\<close> are truthy.
\<close>

definition prop_of :: "jsvalue \<Rightarrow> string \<Rightarrow> jsvalue" where
  "prop_of d k =
     (case d of
        JObj ps \<Rightarrow> (case map_of ps k of Some v \<Rightarrow> v | None \<Rightarrow> JUndefined)
      | _ \<Rightarrow> JUndefined)"

definition emits :: "jsvalue \<Rightarrow> bool" where
  "emits d \<longleftrightarrow> truthy (prop_of d ''name'') \<and> truthy (prop_of d ''parameters'')"

definition name_and_arguments :: "tool_call \<Rightarrow> jsvalue \<times> string" where
  "name_and_arguments t = (function_name t, function_arguments t)"

text \<open>
  \<open>first_seen ks\<close>: the keys of \<open>ks\<close> in the order of their first occurrence.
  \<open>keys_ordered ps\<close>: the array-index keys of \<open>ps\<close> come first, in ascending numeric
  order, and the other keys after them.
\<close>

fun first_seen :: "string list \<Rightarrow> string list" where
  "first_seen [] = []"
| "first_seen (k # ks) = k # filter (\<lambda>x. x \<noteq> k) (first_seen ks)"

definition keys_ordered :: "props \<Rightarrow> bool" where
  "keys_ordered ps \<longleftrightarrow>
     map fst ps = filter is_array_index (map fst ps) @ filter (\<lambda>k. \<not> is_array_index k) (map fst ps) \<and>
     sorted_wrt (\<lambda>a b. digits_value a \<le> digits_value b) (filter is_array_index (map fst ps))"

text \<open>
  A parameter of the code environment as it stands in the region: the marker with its
  key, the value, and the text between the value and the next marker.
\<close>

definition render_param :: "string \<times> string \<times> string \<Rightarrow> string" where
  "render_param c = (case c of (k, v, j) \<Rightarrow> ''<parameter='' @ k @ ''>'' @ v @ j)"

text \<open>
  A parameter is well formed when its key is non-empty and has no \<^verbatim>\<open>>\<close>, its value has
  no \<^verbatim>\<open><\<close>, and the text after the value is empty or starts with \<^verbatim>\<open><\<close> and holds no
  parameter marker.
\<close>

definition well_formed_param :: "string \<times> string \<times> string \<Rightarrow> bool" where
  "well_formed_param c \<longleftrightarrow>
     (case c of (k, v, j) \<Rightarrow>
        k \<noteq> [] \<and> CHR ''>'' \<notin> set k \<and> CHR ''<'' \<notin> set v \<and>
        (j = [] \<or> hd j = CHR ''<'') \<and> \<not> sublist ''<parameter='' j)"

section \<open>A host for the examples\<close>

text \<open>
  \<^verbatim>\<open>JSON.stringify\<close> on the values of the examples: \<^verbatim>\<open>undefined\<close> has no text, is left
  out of an object and is \<^verbatim>\<open>null\<close> in an array; a string is quoted with its escapes; an
  integer of magnitude at most \<open>2 ^ 53\<close> is written in decimal. Other finite Numbers do
  not occur in the examples and are written as \<^verbatim>\<open><number>\<close>.
\<close>

definition hex4 :: "nat \<Rightarrow> string" where
  "hex4 n = map (\<lambda>i. ''0123456789abcdef'' ! ((n div 16 ^ i) mod 16)) [3, 2, 1, 0]"

definition quote_char :: "char \<Rightarrow> string" where
  "quote_char c =
     (if c = CHR 0x08 then [CHR 0x5C, CHR ''b'']
      else if c = CHR 0x09 then [CHR 0x5C, CHR ''t'']
      else if c = CHR 0x0A then [CHR 0x5C, CHR ''n'']
      else if c = CHR 0x0C then [CHR 0x5C, CHR ''f'']
      else if c = CHR 0x0D then [CHR 0x5C, CHR ''r'']
      else if c = CHR 0x22 then [CHR 0x5C, CHR 0x22]
      else if c = CHR 0x5C then [CHR 0x5C, CHR 0x5C]
      else if (of_char c :: nat) < 32 then CHR 0x5C # CHR ''u'' # hex4 (of_char c)
      else [c])"

definition quote_string :: "string \<Rightarrow> string" where
  "quote_string s = [CHR 0x22] @ concat (map quote_char s) @ [CHR 0x22]"

fun show_num :: "jsnum \<Rightarrow> string" where
  "show_num NaN = ''null''"
| "show_num (Infinity _) = ''null''"
| "show_num NegZero = ''0''"
| "show_num (Near q) =
     (if q = of_int \<lfloor>q\<rfloor> \<and> \<bar>q\<bar> \<le> 2 ^ 53 then show_int \<lfloor>q\<rfloor> else ''<number>'')"

fun join_comma :: "string list \<Rightarrow> string" where
  "join_comma [] = []"
| "join_comma [x] = x"
| "join_comma (x # y # zs) = x @ '','' @ join_comma (y # zs)"

fun stringify :: "jsvalue \<Rightarrow> string option" where
  "stringify JUndefined = None"
| "stringify JNull = Some ''null''"
| "stringify (JBool b) = Some (if b then ''true'' else ''false'')"
| "stringify (JNum n) = Some (show_num n)"
| "stringify (JStr s) = Some (quote_string s)"
| "stringify (JArr vs) =
     Some (''['' @ join_comma (map (\<lambda>v. case stringify v of None \<Rightarrow> ''null'' | Some t \<Rightarrow> t) vs) @ '']'')"
| "stringify (JObj ps) =
     Some (''{'' @ join_comma (concat (map (\<lambda>p.
              case stringify (snd p) of
                None \<Rightarrow> []
              | Some t \<Rightarrow> [quote_string (fst p) @ '':'' @ t]) ps)) @ ''}'')"

text \<open>
  \<^verbatim>\<open>JSON.parse\<close> on the bracketed payloads of the examples. On every other text this
  host reports a SyntaxError.
\<close>

definition payload_partial :: string where
  \<open>payload_partial = ''{"name":"search","parameters":{"q":"tars"}},{"name":"broken"}''\<close>

definition payload_null_first :: string where
  \<open>payload_null_first = ''null,{"name":"search","parameters":{"q":"tars"}}''\<close>

definition payload_zero :: string where
  \<open>payload_zero = ''{"name":"count","parameters":0}''\<close>

definition payload_two :: string where
  \<open>payload_two =
     ''{"name":"search","parameters":{"q":"tars"}},{"name":"open","parameters":{"url":"x"}}''\<close>

definition mcp_text :: "string \<Rightarrow> string" where
  "mcp_text payload =
     ''<mcp_env><|FunctionCallBegin|>['' @ payload @ '']<|FunctionCallEnd|></mcp_env>''"

definition example_parse :: "string \<Rightarrow> js_error + jsvalue" where
  "example_parse s =
     (if s = ''['' @ payload_partial @ '']'' then
        Inr (JArr [JObj [(''name'', JStr ''search''), (''parameters'', JObj [(''q'', JStr ''tars'')])],
                   JObj [(''name'', JStr ''broken'')]])
      else if s = ''['' @ payload_null_first @ '']'' then
        Inr (JArr [JNull,
                   JObj [(''name'', JStr ''search''), (''parameters'', JObj [(''q'', JStr ''tars'')])]])
      else if s = ''['' @ payload_zero @ '']'' then
        Inr (JArr [JObj [(''name'', JStr ''count''), (''parameters'', JNum (Near 0))]])
      else if s = ''['' @ payload_two @ '']'' then
        Inr (JArr [JObj [(''name'', JStr ''search''), (''parameters'', JObj [(''q'', JStr ''tars'')])],
                   JObj [(''name'', JStr ''open''), (''parameters'', JObj [(''url'', JStr ''x'')])]])
      else Inl SyntaxError)"

definition example_host :: host where
  "example_host =
     \<lparr>Date_now = (\<lambda>k. 1700000000000),
      Math_random_36 = (\<lambda>k. ''0.4fzyo82mvyr''),
      JSON_parse = example_parse,
      JSON_stringify = (\<lambda>v. case stringify v of None \<Rightarrow> [] | Some t \<Rightarrow> t)\<rparr>"

section \<open>Leftmost occurrences and lazy groups\<close>

lemma index_of_SomeD: "index_of p s = Some (a, b) \<Longrightarrow> s = a @ p @ b"
  by (induction s arbitrary: a) (auto simp: prefix_def split: if_splits)

lemma index_of_first:
  "index_of p s = Some (a, b) \<Longrightarrow> s = a' @ p @ b' \<Longrightarrow> length a \<le> length a'"
proof (induction s arbitrary: a a')
  case Nil
  then show ?case by (simp split: if_splits)
next
  case (Cons c cs)
  show ?case
  proof (cases "prefix p (c # cs)")
    case True
    with Cons.prems(1) show ?thesis by simp
  next
    case False
    with Cons.prems(1) obtain a0 where a0: "index_of p cs = Some (a0, b)" "a = c # a0"
      by auto
    from False Cons.prems(2) obtain a'' where a'': "a' = c # a''" "cs = a'' @ p @ b'"
      by (cases a') (auto simp: prefix_def)
    from Cons.IH[OF a0(1) a''(2)] a0(2) a''(1) show ?thesis by simp
  qed
qed

lemma index_of_None: "index_of p s = None \<longleftrightarrow> \<not> sublist p s"
proof (induction s)
  case Nil
  then show ?case by simp
next
  case (Cons c cs)
  show ?case
  proof (cases "prefix p (c # cs)")
    case True
    then show ?thesis by (simp add: sublist_Cons_right)
  next
    case False
    then show ?thesis using Cons.IH by (simp add: sublist_Cons_right)
  qed
qed

lemma index_of_Some_iff:
  "index_of p s = Some (a, b) \<longleftrightarrow>
     s = a @ p @ b \<and> (\<forall>a' b'. s = a' @ p @ b' \<longrightarrow> length a \<le> length a')"
proof
  assume "index_of p s = Some (a, b)"
  then show "s = a @ p @ b \<and> (\<forall>a' b'. s = a' @ p @ b' \<longrightarrow> length a \<le> length a')"
    using index_of_SomeD index_of_first by blast
next
  assume r: "s = a @ p @ b \<and> (\<forall>a' b'. s = a' @ p @ b' \<longrightarrow> length a \<le> length a')"
  then have "sublist p s" by (auto simp: sublist_def)
  then obtain a1 b1 where s1: "index_of p s = Some (a1, b1)"
    using index_of_None by (cases "index_of p s") auto
  then have e: "s = a1 @ p @ b1" by (rule index_of_SomeD)
  have "length a1 \<le> length a" using index_of_first[OF s1] r by blast
  moreover have "length a \<le> length a1" using r e by blast
  ultimately have "length a1 = length a" by simp
  moreover from e r have "a1 @ p @ b1 = a @ p @ b" by simp
  ultimately have "a1 = a" "b1 = b" by simp_all
  with s1 show "index_of p s = Some (a, b)" by simp
qed

lemma trim_sublist: "sublist (trim s) s"
proof -
  have "suffix (dropWhile is_space s) s" by (rule suffix_dropWhile)
  moreover have "prefix (trim s) (dropWhile is_space s)"
    unfolding trim_def
    by (metis suffix_dropWhile suffix_to_prefix rev_rev_ident)
  ultimately show ?thesis
    using sublist_altdef' by blast
qed

lemma match_between_Some_iff:
  "match_between opn cls s = Some body \<longleftrightarrow> first_region opn cls s body"
proof
  assume m: "match_between opn cls s = Some body"
  then obtain pre rest where i1: "index_of opn s = Some (pre, rest)"
    by (auto simp: match_between_def split: option.splits)
  with m obtain post where i2: "index_of cls rest = Some (body, post)"
    by (auto simp: match_between_def split: option.splits)
  from i1 have "s = pre @ opn @ rest \<and> (\<forall>a b. s = a @ opn @ b \<longrightarrow> length pre \<le> length a)"
    by (simp add: index_of_Some_iff)
  moreover from i2 have "rest = body @ cls @ post \<and>
      (\<forall>a b. rest = a @ cls @ b \<longrightarrow> length body \<le> length a)"
    by (simp add: index_of_Some_iff)
  ultimately show "first_region opn cls s body"
    unfolding first_region_def by blast
next
  assume "first_region opn cls s body"
  then obtain pre post where
    s: "s = pre @ opn @ body @ cls @ post" and
    f1: "\<forall>a b. s = a @ opn @ b \<longrightarrow> length pre \<le> length a" and
    f2: "\<forall>a b. body @ cls @ post = a @ cls @ b \<longrightarrow> length body \<le> length a"
    unfolding first_region_def by blast
  from s f1 have "index_of opn s = Some (pre, body @ cls @ post)"
    by (simp add: index_of_Some_iff)
  moreover from f2 have "index_of cls (body @ cls @ post) = Some (body, post)"
    by (simp add: index_of_Some_iff)
  ultimately show "match_between opn cls s = Some body"
    by (simp add: match_between_def)
qed

lemma match_between_None_iff:
  "match_between opn cls s = None \<longleftrightarrow> \<not> has_region opn cls s"
proof
  assume n: "match_between opn cls s = None"
  show "\<not> has_region opn cls s"
  proof
    assume "has_region opn cls s"
    then obtain pre body post where s: "s = pre @ opn @ body @ cls @ post"
      unfolding has_region_def by blast
    then have "sublist opn s" unfolding sublist_def by blast
    then obtain a rest where i1: "index_of opn s = Some (a, rest)"
      using index_of_None by (cases "index_of opn s") auto
    with n have i2: "index_of cls rest = None"
      by (auto simp: match_between_def split: option.splits)
    from i1 have e: "s = a @ opn @ rest" by (rule index_of_SomeD)
    from i1 s have "length a \<le> length pre" by (rule index_of_first)
    then obtain d where pre: "pre = a @ d"
      using s e by (metis append_eq_append_conv_if append_take_drop_id)
    with s e have eq: "opn @ rest = (d @ opn) @ body @ cls @ post" by simp
    have "rest = drop (length opn) (opn @ rest)" by simp
    also have "\<dots> = drop (length opn) ((d @ opn) @ body @ cls @ post)"
      using eq by simp
    also have "\<dots> = drop (length opn) (d @ opn) @ body @ cls @ post"
      by simp
    finally have "rest = (drop (length opn) (d @ opn) @ body) @ cls @ post" by simp
    then have "sublist cls rest" unfolding sublist_def by blast
    with i2 show False by (simp add: index_of_None)
  qed
next
  assume h: "\<not> has_region opn cls s"
  show "match_between opn cls s = None"
  proof (rule ccontr)
    assume "match_between opn cls s \<noteq> None"
    then obtain body where "match_between opn cls s = Some body" by auto
    then have "first_region opn cls s body" by (simp add: match_between_Some_iff)
    then have "has_region opn cls s" unfolding first_region_def has_region_def by blast
    with h show False by simp
  qed
qed

lemma match_between_no_close:
  assumes "match_between opn cls s = Some body" and "cls \<noteq> []"
  shows "\<not> sublist cls body"
proof
  assume "sublist cls body"
  then obtain a b where b: "body = a @ cls @ b" unfolding sublist_def by blast
  from assms(1) have "first_region opn cls s body" by (simp add: match_between_Some_iff)
  then obtain post where
    f2: "\<forall>a b. body @ cls @ post = a @ cls @ b \<longrightarrow> length body \<le> length a"
    unfolding first_region_def by blast
  from b have "body @ cls @ post = a @ cls @ (b @ cls @ post)" by simp
  with f2 have "length body \<le> length a" by blast
  with b assms(2) show False by simp
qed

lemma match_between_again:
  assumes "match_between opn cls s = Some body" and "cls \<noteq> []"
  shows "match_between opn cls (trim body) = None"
proof -
  have n: "\<not> sublist cls (trim body)"
  proof
    assume "sublist cls (trim body)"
    then obtain a b where "trim body = a @ cls @ b" unfolding sublist_def by blast
    moreover obtain a' b' where "body = a' @ trim body @ b'"
      using trim_sublist [of body] unfolding sublist_def by blast
    ultimately have "body = (a' @ a) @ cls @ (b @ b')" by simp
    then have "sublist cls body" unfolding sublist_def by blast
    with match_between_no_close[OF assms] show False by simp
  qed
  have "\<not> has_region opn cls (trim body)"
  proof
    assume "has_region opn cls (trim body)"
    then obtain pre b post where "trim body = (pre @ opn @ b) @ cls @ post"
      unfolding has_region_def by auto
    then have "sublist cls (trim body)" unfolding sublist_def by blast
    with n show False by simp
  qed
  then show ?thesis by (simp add: match_between_None_iff)
qed

lemma match_between_Nil: "cls \<noteq> [] \<Longrightarrow> match_between opn cls [] = None"
  by (simp add: match_between_def split: option.splits if_splits)

lemma first_region_exists:
  "has_region opn cls s \<Longrightarrow> \<exists>body. first_region opn cls s body"
proof -
  assume "has_region opn cls s"
  then have "match_between opn cls s \<noteq> None" by (simp add: match_between_None_iff)
  then obtain body where "match_between opn cls s = Some body" by auto
  then show ?thesis using match_between_Some_iff by blast
qed

lemma trim_spec:
  "\<exists>l r. s = l @ trim s @ r \<and> list_all is_space l \<and> list_all is_space r \<and>
     (trim s = [] \<or> (\<not> is_space (hd (trim s)) \<and> \<not> is_space (last (trim s))))"
proof -
  let ?l = "takeWhile is_space s"
  let ?m = "dropWhile is_space s"
  let ?r = "rev (takeWhile is_space (rev ?m))"
  have 1: "s = ?l @ ?m" by simp
  have 2: "?m = trim s @ ?r"
    unfolding trim_def by (metis rev_append rev_rev_ident takeWhile_dropWhile_id)
  have 3: "list_all is_space ?l" by (simp add: list_all_iff) (meson set_takeWhileD)
  have 4: "list_all is_space ?r" by (simp add: list_all_iff) (meson set_takeWhileD)
  have 5: "trim s = [] \<or> (\<not> is_space (hd (trim s)) \<and> \<not> is_space (last (trim s)))"
  proof (cases "trim s = []")
    case True
    then show ?thesis by simp
  next
    case False
    then have ne: "dropWhile is_space (rev ?m) \<noteq> []" by (simp add: trim_def)
    then have a: "\<not> is_space (hd (dropWhile is_space (rev ?m)))" by (rule hd_dropWhile)
    have "last (trim s) = hd (dropWhile is_space (rev ?m))"
      using ne by (simp add: trim_def last_rev)
    with a have l: "\<not> is_space (last (trim s))" by simp
    have "?m \<noteq> []"
    proof
      assume a: "?m = []"
      have "trim s = rev (dropWhile is_space (rev ?m))" by (simp only: trim_def)
      also have "\<dots> = []" by (simp only: a rev.simps dropWhile.simps)
      finally show False using False by simp
    qed
    then have "\<not> is_space (hd ?m)" by (rule hd_dropWhile)
    moreover from 2 False have "hd ?m = hd (trim s)" by (metis hd_append2)
    ultimately show ?thesis using l by simp
  qed
  from 1 2 have "s = ?l @ trim s @ ?r" by simp
  with 3 4 5 show ?thesis by blast
qed

section \<open>Claims about reasoning and answer extraction\<close>

text \<open>
  Claim C5. Tag extraction is total and deterministic: it returns the trimmed content of
  the first occurrence of the open tag followed by the close tag, the lazy group stopping
  at the first close tag, and the empty string when the text holds no such pair. This
  holds for the reasoning tag and for the answer tag; when a pair exists, a first region
  exists, so the two cases cover every text.
\<close>

theorem tag_extraction:
  "(first_region THINK_OPEN THINK_CLOSE content body \<longrightarrow> extractThinkContent content = trim body) \<and>
   (\<not> has_region THINK_OPEN THINK_CLOSE content \<longrightarrow> extractThinkContent content = []) \<and>
   (has_region THINK_OPEN THINK_CLOSE content \<longrightarrow>
      (\<exists>b. first_region THINK_OPEN THINK_CLOSE content b)) \<and>
   (first_region ''<answer>'' ''</answer>'' content body \<longrightarrow> extractAnswerContent content = trim body) \<and>
   (\<not> has_region ''<answer>'' ''</answer>'' content \<longrightarrow> extractAnswerContent content = []) \<and>
   (has_region ''<answer>'' ''</answer>'' content \<longrightarrow>
      (\<exists>b. first_region ''<answer>'' ''</answer>'' content b))"
  unfolding extractThinkContent_def extractAnswerContent_def
  using first_region_exists
  by (simp add: match_between_Some_iff [symmetric] match_between_None_iff [symmetric])

theorem tag_extraction_witness:
  "first_region ''<answer>'' ''</answer>'' ''a<answer> b </answer>c</answer>'' '' b '' \<and>
   extractAnswerContent ''a<answer> b </answer>c</answer>'' = ''b'' \<and>
   \<not> has_region ''<answer>'' ''</answer>'' ''a</answer> b <answer>'' \<and>
   extractAnswerContent ''a</answer> b <answer>'' = [] \<and>
   first_region THINK_OPEN THINK_CLOSE (THINK_OPEN @ ''  plan '' @ THINK_CLOSE) ''  plan '' \<and>
   extractThinkContent (THINK_OPEN @ ''  plan '' @ THINK_CLOSE) = ''plan'' \<and>
   \<not> has_region THINK_OPEN THINK_CLOSE ''<think>plan</think>'' \<and>
   extractThinkContent ''<think>plan</think>'' = []"
proof -
  have a: "first_region ''<answer>'' ''</answer>'' ''a<answer> b </answer>c</answer>'' '' b ''"
    unfolding match_between_Some_iff [symmetric] by code_simp
  have b: "\<not> has_region ''<answer>'' ''</answer>'' ''a</answer> b <answer>''"
    unfolding match_between_None_iff [symmetric] by code_simp
  have c: "first_region THINK_OPEN THINK_CLOSE (THINK_OPEN @ ''  plan '' @ THINK_CLOSE) ''  plan ''"
    unfolding match_between_Some_iff [symmetric] by code_simp
  have d: "\<not> has_region THINK_OPEN THINK_CLOSE ''<think>plan</think>''"
    unfolding match_between_None_iff [symmetric] by code_simp
  have t: "trim '' b '' = ''b''" "trim ''  plan '' = ''plan''" by code_simp+
  show ?thesis
    using a b c d t
      tag_extraction [of "''a<answer> b </answer>c</answer>''" "'' b ''"]
      tag_extraction [of "''a</answer> b <answer>''" "[]"]
      tag_extraction [of "THINK_OPEN @ ''  plan '' @ THINK_CLOSE" "''  plan ''"]
      tag_extraction [of "''<think>plan</think>''" "[]"]
    by simp
qed

text \<open>
  Claim C6, as amended. Extraction is not idempotent in the sense of returning its own
  result: a string produced by the reasoning extraction never holds a complete pair of
  reasoning tags, so extracting from it again returns the empty string. The same holds
  for the answer extraction.
\<close>

theorem reextraction_is_empty:
  "extractThinkContent (extractThinkContent content) = [] \<and>
   extractAnswerContent (extractAnswerContent content) = []"
proof -
  have "extractThinkContent (extractThinkContent content) = []"
  proof (cases "match_between THINK_OPEN THINK_CLOSE content")
    case None
    then show ?thesis
      by (simp add: extractThinkContent_def match_between_Nil THINK_CLOSE_def)
  next
    case (Some g)
    then have "match_between THINK_OPEN THINK_CLOSE (trim g) = None"
      by (rule match_between_again) (simp add: THINK_CLOSE_def)
    with Some show ?thesis by (simp add: extractThinkContent_def)
  qed
  moreover have "extractAnswerContent (extractAnswerContent content) = []"
  proof (cases "match_between ''<answer>'' ''</answer>'' content")
    case None
    then show ?thesis
      by (simp add: extractAnswerContent_def match_between_Nil)
  next
    case (Some g)
    then have "match_between ''<answer>'' ''</answer>'' (trim g) = None"
      by (rule match_between_again) simp
    with Some show ?thesis by (simp add: extractAnswerContent_def)
  qed
  ultimately show ?thesis by simp
qed

text \<open>
  The claim as stated fails: the reasoning \<open>plan\<close> is extracted from a tagged text, and
  extraction from \<open>plan\<close> does not return \<open>plan\<close>.
\<close>

theorem reextraction_counterexample:
  "extractThinkContent (THINK_OPEN @ ''plan'' @ THINK_CLOSE) = ''plan'' \<and>
   extractThinkContent ''plan'' \<noteq> ''plan''"
  by code_simp

section \<open>Claims about the assembled result\<close>

lemma actions_make_result: "actions (make_result th an ts) = ts"
  by (cases ts) (simp_all add: actions_def make_result_def)

lemma tools_make_result:
  "tools (make_result th an ts) = (if ts = [] then None else Some ts)"
  by (simp add: make_result_def)

lemma mcp_statements_no_throw: "fst (mcp_statements h c) = None"
  by (auto simp: mcp_statements_def mcp_try_catch_def split: option.splits prod.splits)

lemma parseMcpContent_eq:
  "parseMcpContent h c =
     Inr (make_result (extractThinkContent c) (extractAnswerContent c) (mcp_tools h c))"
proof -
  obtain e l ts where s: "mcp_statements h c = (e, l, ts)" by (cases "mcp_statements h c") auto
  with mcp_statements_no_throw [of h c] have "e = None" by simp
  with s show ?thesis by (simp add: parseMcpContent_def mcp_tools_def)
qed

text \<open>
  Claim C10. Each decoder returns a result whose \<^verbatim>\<open>tools\<close> field is absent exactly
  when no invocation was decoded; the field never holds an empty list, and when present
  it holds the decoded invocations.
\<close>

theorem tools_field_present_iff:
  "(\<exists>p. parseCodeContent h c = Inr p \<and> actions p = code_tools h c \<and>
        tools p \<noteq> Some [] \<and> (tools p = None \<longleftrightarrow> code_tools h c = [])) \<and>
   (\<exists>p. parseMcpContent h c = Inr p \<and> actions p = mcp_tools h c \<and>
        tools p \<noteq> Some [] \<and> (tools p = None \<longleftrightarrow> mcp_tools h c = [])) \<and>
   (\<exists>p. parseComputerContent h c = Inr p \<and> actions p = computer_tools h c \<and>
        tools p \<noteq> Some [] \<and> (tools p = None \<longleftrightarrow> computer_tools h c = []))"
  by (simp add: parseCodeContent_def parseComputerContent_def parseMcpContent_eq
      actions_make_result tools_make_result)

theorem tools_field_present_iff_witness:
  "(\<exists>p. parseCodeContent example_host ''<answer>done</answer>'' = Inr p \<and> tools p = None) \<and>
   code_tools example_host ''<answer>done</answer>'' = [] \<and>
   (\<exists>p. parseCodeContent example_host ''<code_env><function=run></code_env>'' = Inr p \<and>
        tools p \<noteq> None) \<and>
   code_tools example_host ''<code_env><function=run></code_env>'' \<noteq> []"
proof -
  have a: "code_tools example_host ''<answer>done</answer>'' = []" by code_simp
  have "match_between ''<code_env>'' ''</code_env>'' ''<code_env><function=run></code_env>'' =
      Some ''<function=run>''" by code_simp
  moreover have "match_marker ''<function='' ''<function=run>'' = Some (''run'', [])" by code_simp
  ultimately have b: "code_tools example_host ''<code_env><function=run></code_env>'' \<noteq> []"
    by (simp add: code_tools_def)
  from tools_field_present_iff [of example_host "''<answer>done</answer>''"] a
  have 1: "\<exists>p. parseCodeContent example_host ''<answer>done</answer>'' = Inr p \<and> tools p = None"
    by auto
  from tools_field_present_iff [of example_host "''<code_env><function=run></code_env>''"] b
  have 2: "\<exists>p. parseCodeContent example_host ''<code_env><function=run></code_env>'' = Inr p \<and>
        tools p \<noteq> None"
    by auto
  from 1 2 a b show ?thesis by blast
qed

lemma generateToolCallId_sources:
  "call_content \<lparr>call_id = generateToolCallId h k, call_type = ty, function_name = n,
      function_arguments = a\<rparr> = (ty, n, a)"
  by (simp add: call_content_def)

lemma mcp_loop_content:
  assumes "JSON_stringify h' = JSON_stringify h" and "map call_content ts' = map call_content ts"
  shows "fst (mcp_loop h' calls ts') = fst (mcp_loop h calls ts) \<and>
         map call_content (snd (mcp_loop h' calls ts')) = map call_content (snd (mcp_loop h calls ts))"
  using assms(2)
proof (induction calls arbitrary: ts ts')
  case Nil
  then show ?case by simp
next
  case (Cons call calls)
  have step: "\<And>n p. map call_content (ts' @ [make_tool h' (length ts') n p]) =
        map call_content (ts @ [make_tool h (length ts) n p])"
  proof -
    fix n p
    have "call_content (make_tool h' (length ts') n p) = call_content (make_tool h (length ts) n p)"
      using assms(1) by (simp add: make_tool_def call_content_def)
    with Cons.prems show "map call_content (ts' @ [make_tool h' (length ts') n p]) =
        map call_content (ts @ [make_tool h (length ts) n p])" by simp
  qed
  show ?case
  proof (cases "get_field call ''name''")
    case (Inl e)
    then show ?thesis using Cons.prems by simp
  next
    case n: (Inr n)
    show ?thesis
    proof (cases "get_field call ''parameters''")
      case (Inl e)
      then show ?thesis using n Cons.prems Cons.IH [OF Cons.prems] by simp
    next
      case p: (Inr p)
      show ?thesis
        using n p Cons.IH [OF Cons.prems] Cons.IH [OF step] by simp
    qed
  qed
qed

lemma mcp_statements_content:
  assumes "JSON_stringify h' = JSON_stringify h" and "JSON_parse h' = JSON_parse h"
  shows "map call_content (mcp_tools h' c) = map call_content (mcp_tools h c)"
proof -
  have t: "\<And>payload. fst (mcp_try h' payload) = fst (mcp_try h payload) \<and>
      map call_content (snd (mcp_try h' payload)) = map call_content (snd (mcp_try h payload))"
    using mcp_loop_content [OF assms(1), of "[]" "[]"] assms(2)
    by (simp add: mcp_try_def split: sum.splits jsvalue.splits)
  have "\<And>payload. map call_content (snd (snd (mcp_try_catch h' payload))) =
      map call_content (snd (snd (mcp_try_catch h payload)))"
  proof -
    fix payload
    obtain e ts where a: "mcp_try h payload = (e, ts)" by (cases "mcp_try h payload") auto
    obtain e' ts' where b: "mcp_try h' payload = (e', ts')" by (cases "mcp_try h' payload") auto
    from t [of payload] a b have "e' = e" "map call_content ts' = map call_content ts" by simp_all
    with a b show "map call_content (snd (snd (mcp_try_catch h' payload))) =
      map call_content (snd (snd (mcp_try_catch h payload)))"
      by (simp add: mcp_try_catch_def split: option.splits)
  qed
  then show ?thesis
    by (simp add: mcp_tools_def mcp_statements_def split: option.splits)
qed

lemma result_content_make_result:
  "result_content (Inr (make_result th an ts)) =
     Inr (th, an, if ts = [] then None else Some (map call_content ts))"
  by (simp add: result_content_def make_result_def)

text \<open>
  Claim C7. Two runs of a decoder on the same text that differ only in the clock readings
  and in the values of the random source agree on the reasoning, the answer, and the
  type, name and arguments of every invocation; only the identifiers may differ.
\<close>

theorem content_independent_of_identifier_sources:
  "result_content (parseCodeContent (h\<lparr>Date_now := d, Math_random_36 := r\<rparr>) c) =
     result_content (parseCodeContent h c) \<and>
   result_content (parseMcpContent (h\<lparr>Date_now := d, Math_random_36 := r\<rparr>) c) =
     result_content (parseMcpContent h c) \<and>
   result_content (parseComputerContent (h\<lparr>Date_now := d, Math_random_36 := r\<rparr>) c) =
     result_content (parseComputerContent h c)"
proof -
  let ?h = "h\<lparr>Date_now := d, Math_random_36 := r\<rparr>"
  have 1: "map call_content (code_tools ?h c) = map call_content (code_tools h c)"
    by (simp add: code_tools_def call_content_def split: option.splits)
  have 2: "map call_content (mcp_tools ?h c) = map call_content (mcp_tools h c)"
    by (rule mcp_statements_content) simp_all
  have 3: "map call_content (computer_tools ?h c) = map call_content (computer_tools h c)"
    by (simp add: computer_tools_def call_content_def split: option.splits)
  have e: "\<And>xs ys :: tool_call list. map call_content xs = map call_content ys \<Longrightarrow> (xs = []) = (ys = [])"
    by (metis map_is_Nil_conv)
  show ?thesis
    using 1 2 3 e [OF 1] e [OF 2] e [OF 3]
    by (simp add: parseCodeContent_def parseMcpContent_eq parseComputerContent_def
        result_content_make_result)
qed

lemma show_nat_digits: "list_all is_digit (show_nat n) \<and> digits_value (show_nat n) = n"
proof (induction n rule: show_nat.induct)
  case (1 n)
  have d: "\<And>k. k < 10 \<Longrightarrow> is_digit (''0123456789'' ! k) \<and> digit_value (''0123456789'' ! k) = k"
  proof -
    fix k :: nat
    assume "k < 10"
    then have "k \<in> {0, 1, 2, 3, 4, 5, 6, 7, 8, 9}" by auto
    then show "is_digit (''0123456789'' ! k) \<and> digit_value (''0123456789'' ! k) = k"
      by (auto simp: is_digit_def digit_value_def)
  qed
  show ?case
  proof (cases "n < 10")
    case True
    then show ?thesis using d [of n] by (subst show_nat.simps, subst (2) show_nat.simps) (simp add: digits_value_def)
  next
    case False
    have m: "n mod 10 < 10" by simp
    from False 1 have ih: "list_all is_digit (show_nat (n div 10))"
      "digits_value (show_nat (n div 10)) = n div 10" by simp_all
    have "show_nat n = show_nat (n div 10) @ [''0123456789'' ! (n mod 10)]"
      using False by (subst show_nat.simps) simp
    then show ?thesis using ih d [OF m] by (simp add: digits_value_def)
  qed
qed

lemma mcp_loop_ids:
  assumes "\<forall>k < length ts. call_id (ts ! k) = generateToolCallId h k"
  shows "\<forall>k < length (snd (mcp_loop h calls ts)).
           call_id (snd (mcp_loop h calls ts) ! k) = generateToolCallId h k"
  using assms
proof (induction calls arbitrary: ts)
  case Nil
  then show ?case by simp
next
  case (Cons call calls)
  have step: "\<And>n p. \<forall>k < length (ts @ [make_tool h (length ts) n p]).
      call_id ((ts @ [make_tool h (length ts) n p]) ! k) = generateToolCallId h k"
    using Cons.prems by (auto simp: nth_append make_tool_def less_Suc_eq)
  show ?case
    using Cons.prems Cons.IH [OF Cons.prems] Cons.IH [OF step]
    by (simp split: sum.splits)
qed

lemma mcp_tools_ids:
  "\<forall>k < length (mcp_tools h c). call_id (mcp_tools h c ! k) = generateToolCallId h k"
proof -
  have l: "\<And>calls. \<forall>k < length (snd (mcp_loop h calls [])).
           call_id (snd (mcp_loop h calls []) ! k) = generateToolCallId h k"
    by (rule mcp_loop_ids) simp
  have t: "\<And>payload. \<forall>k < length (snd (mcp_try h payload)).
           call_id (snd (mcp_try h payload) ! k) = generateToolCallId h k"
    using l by (simp add: mcp_try_def split: sum.splits jsvalue.splits)
  have "\<And>payload. \<forall>k < length (snd (snd (mcp_try_catch h payload))).
           call_id (snd (snd (mcp_try_catch h payload)) ! k) = generateToolCallId h k"
  proof -
    fix payload
    obtain e ts where a: "mcp_try h payload = (e, ts)" by (cases "mcp_try h payload") auto
    with t [of payload] show "\<forall>k < length (snd (snd (mcp_try_catch h payload))).
           call_id (snd (snd (mcp_try_catch h payload)) ! k) = generateToolCallId h k"
      by (simp add: mcp_try_catch_def split: option.splits)
  qed
  then show ?thesis
    by (simp add: mcp_tools_def mcp_statements_def split: option.splits)
qed

lemma radix36_suffix: "is_radix36 r \<Longrightarrow> list_all is_base36 (substring 2 11 r)"
proof -
  assume a: "is_radix36 r"
  show ?thesis
  proof (cases "r = ''0''")
    case True
    then show ?thesis by (simp add: substring_def)
  next
    case False
    with a have "list_all is_base36 (drop 2 r)" by (simp add: is_radix36_def)
    moreover have "set (take 9 (drop 2 r)) \<subseteq> set (drop 2 r)" by (rule set_take_subset)
    ultimately show ?thesis unfolding substring_def list_all_iff by auto
  qed
qed

text \<open>
  Claim C8, as amended. Every invocation gets the identifier \<^verbatim>\<open>call_\<close>, the clock
  reading in decimal, \<^verbatim>\<open>_\<close>, and a suffix: the characters at positions 2 to 10 of
  \<^verbatim>\<open>Math.random().toString(36)\<close>. The suffix has at most nine characters, all of them
  digits of radix 36 (\<^verbatim>\<open>0-9a-z\<close>), and exactly nine only when that text has at least
  eleven characters: its length is not fixed. The \<open>k\<close>-th invocation of a result uses
  the \<open>k\<close>-th clock reading and the \<open>k\<close>-th random value.
\<close>

theorem invocation_identifier:
  "(\<exists>p. parseCodeContent h c = Inr p \<and>
        (\<forall>k < length (actions p). call_id (actions p ! k) =
           ''call_'' @ show_int (Date_now h k) @ ''_'' @ take 9 (drop 2 (Math_random_36 h k)))) \<and>
   (\<exists>p. parseMcpContent h c = Inr p \<and>
        (\<forall>k < length (actions p). call_id (actions p ! k) =
           ''call_'' @ show_int (Date_now h k) @ ''_'' @ take 9 (drop 2 (Math_random_36 h k)))) \<and>
   (\<exists>p. parseComputerContent h c = Inr p \<and>
        (\<forall>k < length (actions p). call_id (actions p ! k) =
           ''call_'' @ show_int (Date_now h k) @ ''_'' @ take 9 (drop 2 (Math_random_36 h k)))) \<and>
   (\<forall>k. length (take 9 (drop 2 (Math_random_36 h k))) \<le> 9 \<and>
        (is_radix36 (Math_random_36 h k) \<longrightarrow>
           list_all is_base36 (take 9 (drop 2 (Math_random_36 h k)))) \<and>
        (length (take 9 (drop 2 (Math_random_36 h k))) = 9 \<longleftrightarrow> 11 \<le> length (Math_random_36 h k))) \<and>
   (\<forall>n. list_all is_digit (show_nat n) \<and> digits_value (show_nat n) = n)"
proof -
  have g: "\<And>k. generateToolCallId h k =
      ''call_'' @ show_int (Date_now h k) @ ''_'' @ take 9 (drop 2 (Math_random_36 h k))"
    by (simp add: generateToolCallId_def substring_def)
  have 1: "\<forall>k < length (code_tools h c). call_id (code_tools h c ! k) = generateToolCallId h k"
    by (simp add: code_tools_def split: option.splits)
  have 3: "\<forall>k < length (computer_tools h c). call_id (computer_tools h c ! k) = generateToolCallId h k"
    by (simp add: computer_tools_def split: option.splits)
  have r: "\<And>k. is_radix36 (Math_random_36 h k) \<longrightarrow>
           list_all is_base36 (take 9 (drop 2 (Math_random_36 h k)))"
    using radix36_suffix by (simp add: substring_def)
  have l: "\<And>k. length (take 9 (drop 2 (Math_random_36 h k))) = 9 \<longleftrightarrow> 11 \<le> length (Math_random_36 h k)"
    by auto
  show ?thesis
    using 1 3 mcp_tools_ids [of h c] r l show_nat_digits
    by (simp add: parseCodeContent_def parseComputerContent_def parseMcpContent_eq
        actions_make_result g)
qed

lemma code_example:
  "code_tools h ''<code_env><function=run><parameter=cmd>ls -la</code_env>'' =
     [\<lparr>call_id = generateToolCallId h 0, call_type = ''function'',
       function_name = JStr ''run'',
       function_arguments = JSON_stringify h (JObj [(''cmd'', JStr ''ls -la'')])\<rparr>]"
proof -
  have "match_between ''<code_env>'' ''</code_env>''
      ''<code_env><function=run><parameter=cmd>ls -la</code_env>'' =
      Some ''<function=run><parameter=cmd>ls -la''" by code_simp
  moreover have "match_marker ''<function='' ''<function=run><parameter=cmd>ls -la'' =
      Some (''run'', ''<parameter=cmd>ls -la'')" by code_simp
  moreover have "code_parameters (parameterMatches ''<function=run><parameter=cmd>ls -la'') =
      [(''cmd'', JStr ''ls -la'')]" by code_simp
  ultimately show ?thesis by (simp add: code_tools_def)
qed

lemma example_timestamp: "show_int 1700000000000 = ''1700000000000''"
  by (simp add: show_int_def)

theorem invocation_identifier_witness:
  "is_radix36 (Math_random_36 example_host 0) \<and>
   (\<exists>p. parseCodeContent example_host
          ''<code_env><function=run><parameter=cmd>ls -la</code_env>'' = Inr p \<and>
        map call_id (actions p) = [''call_1700000000000_4fzyo82mv'']) \<and>
   list_all is_base36 ''4fzyo82mv''"
proof -
  let ?c = "''<code_env><function=run><parameter=cmd>ls -la</code_env>''"
  have r: "is_radix36 (Math_random_36 example_host 0)"
    unfolding example_host_def by simp code_simp
  from invocation_identifier [of example_host ?c] obtain p where
    p: "parseCodeContent example_host ?c = Inr p" and
    i: "\<forall>k < length (actions p). call_id (actions p ! k) =
           ''call_'' @ show_int (Date_now example_host k) @ ''_'' @
           take 9 (drop 2 (Math_random_36 example_host k))" and
    b: "is_radix36 (Math_random_36 example_host 0) \<longrightarrow>
          list_all is_base36 (take 9 (drop 2 (Math_random_36 example_host 0)))"
    by blast
  from p have a: "actions p = code_tools example_host ?c"
    by (auto simp: parseCodeContent_def actions_make_result)
  then have l: "length (actions p) = 1" by (simp add: code_example)
  then obtain t where t: "actions p = [t]" by (cases "actions p") auto
  with i have "call_id t = ''call_'' @ show_int (Date_now example_host 0) @ ''_'' @
           take 9 (drop 2 (Math_random_36 example_host 0))" by auto
  then have "call_id t = ''call_1700000000000_4fzyo82mv''"
    by (simp add: example_host_def example_timestamp)
  with t p have 2: "\<exists>p. parseCodeContent example_host ?c = Inr p \<and>
        map call_id (actions p) = [''call_1700000000000_4fzyo82mv'']" by simp
  from b r have "list_all is_base36 ''4fzyo82mv''" by (simp add: example_host_def)
  with r 2 show ?thesis by blast
qed

text \<open>
  The claim as stated fails on the fixed length: \<^verbatim>\<open>Math.random()\<close> can return \<open>0.5\<close>,
  whose text in radix 36 is \<^verbatim>\<open>0.i\<close>, and the suffix is then the single character
  \<^verbatim>\<open>i\<close>, where another value of the random source gives nine characters.
\<close>

theorem invocation_identifier_counterexample:
  "is_radix36 ''0.i'' \<and> is_radix36 ''0.4fzyo82mvyr'' \<and>
   map_sum id (map call_id \<circ> actions)
     (parseCodeContent (example_host\<lparr>Math_random_36 := (\<lambda>k. ''0.i'')\<rparr>)
        ''<code_env><function=run><parameter=cmd>ls -la</code_env>'') =
     Inr [''call_1700000000000_i''] \<and>
   map_sum id (map call_id \<circ> actions)
     (parseCodeContent (example_host\<lparr>Math_random_36 := (\<lambda>k. ''0.4fzyo82mvyr'')\<rparr>)
        ''<code_env><function=run><parameter=cmd>ls -la</code_env>'') =
     Inr [''call_1700000000000_4fzyo82mv'']"
proof -
  have "is_radix36 ''0.i''" "is_radix36 ''0.4fzyo82mvyr''" by code_simp+
  then show ?thesis
    by (simp add: parseCodeContent_def actions_make_result code_example generateToolCallId_def
        substring_def example_host_def example_timestamp)
qed

section \<open>The markers of the code environment\<close>

lemma takeWhile_stop:
  "\<forall>x \<in> set g. P x \<Longrightarrow> \<not> P y \<Longrightarrow> takeWhile P (g @ y # r) = g \<and> dropWhile P (g @ y # r) = y # r"
  by (induction g) auto

lemma takeWhile_split:
  "dropWhile P t \<noteq> [] \<Longrightarrow>
     \<exists>y r. t = takeWhile P t @ y # r \<and> \<not> P y \<and> dropWhile P t = y # r"
proof -
  assume a: "dropWhile P t \<noteq> []"
  then obtain y r where d: "dropWhile P t = y # r" by (cases "dropWhile P t") auto
  from a have "\<not> P (hd (dropWhile P t))" by (rule hd_dropWhile)
  with d have "\<not> P y" by simp
  moreover have "t = takeWhile P t @ dropWhile P t" by simp
  ultimately show ?thesis using d by metis
qed

lemma marker_at_Some_iff:
  "marker_at m s = Some (g, r) \<longleftrightarrow> s = m @ g @ ''>'' @ r \<and> g \<noteq> [] \<and> CHR ''>'' \<notin> set g"
proof
  assume a: "marker_at m s = Some (g, r)"
  let ?P = "\<lambda>c. c \<noteq> CHR ''>''"
  let ?t = "drop (length m) s"
  from a have p: "prefix m s" and g: "g = takeWhile ?P ?t" and ne: "g \<noteq> []"
    and d: "dropWhile ?P ?t \<noteq> []" and r: "r = tl (dropWhile ?P ?t)"
    by (auto simp: marker_at_def Let_def split: if_splits)
  from takeWhile_split [OF d] obtain y r' where
    t: "?t = takeWhile ?P ?t @ y # r'" and y: "\<not> ?P y" and d': "dropWhile ?P ?t = y # r'"
    by blast
  from p have "s = m @ ?t" by (auto simp: prefix_def)
  with t g y r d' have "s = m @ g @ ''>'' @ r" by simp
  moreover have "CHR ''>'' \<notin> set g" using g by (auto dest: set_takeWhileD)
  ultimately show "s = m @ g @ ''>'' @ r \<and> g \<noteq> [] \<and> CHR ''>'' \<notin> set g" using ne by simp
next
  assume a: "s = m @ g @ ''>'' @ r \<and> g \<noteq> [] \<and> CHR ''>'' \<notin> set g"
  then have "\<forall>x \<in> set g. x \<noteq> CHR ''>''" by auto
  then have "takeWhile (\<lambda>c. c \<noteq> CHR ''>'') (g @ CHR ''>'' # r) = g \<and>
      dropWhile (\<lambda>c. c \<noteq> CHR ''>'') (g @ CHR ''>'' # r) = CHR ''>'' # r"
    by (intro takeWhile_stop) auto
  with a show "marker_at m s = Some (g, r)" by (simp add: marker_at_def)
qed

text \<open>The leftmost match: no match starts before it.\<close>

lemma match_marker_Some_iff:
  "match_marker m s = Some (g, r) \<longleftrightarrow>
     (\<exists>a. s = a @ m @ g @ ''>'' @ r \<and> g \<noteq> [] \<and> CHR ''>'' \<notin> set g \<and>
          (\<forall>i < length a. marker_at m (drop i s) = None))"
proof (induction s)
  case Nil
  show ?case by simp
next
  case (Cons c cs)
  show ?case
  proof (cases "marker_at m (c # cs)")
    case (Some p)
    show ?thesis
    proof
      assume "match_marker m (c # cs) = Some (g, r)"
      with Some have "marker_at m (c # cs) = Some (g, r)" by simp
      then have "c # cs = [] @ m @ g @ ''>'' @ r \<and> g \<noteq> [] \<and> CHR ''>'' \<notin> set g"
        by (simp add: marker_at_Some_iff)
      then show "\<exists>a. c # cs = a @ m @ g @ ''>'' @ r \<and> g \<noteq> [] \<and> CHR ''>'' \<notin> set g \<and>
          (\<forall>i < length a. marker_at m (drop i (c # cs)) = None)"
        by (intro exI [of _ "[]"]) simp
    next
      assume "\<exists>a. c # cs = a @ m @ g @ ''>'' @ r \<and> g \<noteq> [] \<and> CHR ''>'' \<notin> set g \<and>
          (\<forall>i < length a. marker_at m (drop i (c # cs)) = None)"
      then obtain a where a: "c # cs = a @ m @ g @ ''>'' @ r" "g \<noteq> []" "CHR ''>'' \<notin> set g"
          "\<forall>i < length a. marker_at m (drop i (c # cs)) = None" by blast
      have "a = []"
      proof (rule ccontr)
        assume "a \<noteq> []"
        then have "0 < length a" by simp
        with a(4) have "marker_at m (drop 0 (c # cs)) = None" by blast
        with Some show False by simp
      qed
      with a have "marker_at m (c # cs) = Some (g, r)" by (simp add: marker_at_Some_iff)
      then show "match_marker m (c # cs) = Some (g, r)" by simp
    qed
  next
    case None
    then have mm: "match_marker m (c # cs) = match_marker m cs" by simp
    show ?thesis
    proof
      assume "match_marker m (c # cs) = Some (g, r)"
      with mm Cons.IH obtain a where a: "cs = a @ m @ g @ ''>'' @ r" "g \<noteq> []"
          "CHR ''>'' \<notin> set g" "\<forall>i < length a. marker_at m (drop i cs) = None" by auto
      have "\<forall>i < length (c # a). marker_at m (drop i (c # cs)) = None"
      proof (intro allI impI)
        fix i assume "i < length (c # a)"
        then show "marker_at m (drop i (c # cs)) = None"
          using None a(4) by (cases i) auto
      qed
      with a show "\<exists>a. c # cs = a @ m @ g @ ''>'' @ r \<and> g \<noteq> [] \<and> CHR ''>'' \<notin> set g \<and>
          (\<forall>i < length a. marker_at m (drop i (c # cs)) = None)"
        by (intro exI [of _ "c # a"]) simp
    next
      assume "\<exists>a. c # cs = a @ m @ g @ ''>'' @ r \<and> g \<noteq> [] \<and> CHR ''>'' \<notin> set g \<and>
          (\<forall>i < length a. marker_at m (drop i (c # cs)) = None)"
      then obtain a where a: "c # cs = a @ m @ g @ ''>'' @ r" "g \<noteq> []" "CHR ''>'' \<notin> set g"
          "\<forall>i < length a. marker_at m (drop i (c # cs)) = None" by blast
      have "a \<noteq> []"
      proof
        assume "a = []"
        with a have "marker_at m (c # cs) = Some (g, r)" by (simp add: marker_at_Some_iff)
        with None show False by simp
      qed
      then obtain a' where a': "a = c # a'" using a(1) by (cases a) auto
      with a(1) have 1: "cs = a' @ m @ g @ ''>'' @ r" by simp
      have 2: "\<forall>i < length a'. marker_at m (drop i cs) = None"
      proof (intro allI impI)
        fix i assume "i < length a'"
        then have "Suc i < length a" using a' by simp
        with a(4) have "marker_at m (drop (Suc i) (c # cs)) = None" by blast
        then show "marker_at m (drop i cs) = None" by simp
      qed
      from 1 2 a(2,3) Cons.IH have "match_marker m cs = Some (g, r)" by blast
      with mm show "match_marker m (c # cs) = Some (g, r)" by simp
    qed
  qed
qed

lemma match_marker_None_iff: "match_marker m s = None \<longleftrightarrow> \<not> has_marker m s"
proof (induction s)
  case Nil
  show ?case by (simp add: has_marker_def)
next
  case (Cons c cs)
  have step: "has_marker m (c # cs) \<longleftrightarrow> marker_at m (c # cs) \<noteq> None \<or> has_marker m cs"
  proof
    assume "has_marker m (c # cs)"
    then obtain a g b where a: "c # cs = a @ m @ g @ ''>'' @ b" "g \<noteq> []" "CHR ''>'' \<notin> set g"
      unfolding has_marker_def by blast
    show "marker_at m (c # cs) \<noteq> None \<or> has_marker m cs"
    proof (cases a)
      case Nil
      with a have "marker_at m (c # cs) = Some (g, b)" by (simp add: marker_at_Some_iff)
      then show ?thesis by simp
    next
      case (Cons x a')
      with a have "cs = a' @ m @ g @ ''>'' @ b" by simp
      with a(2,3) have "has_marker m cs" unfolding has_marker_def by blast
      then show ?thesis by simp
    qed
  next
    assume "marker_at m (c # cs) \<noteq> None \<or> has_marker m cs"
    then show "has_marker m (c # cs)"
    proof
      assume "marker_at m (c # cs) \<noteq> None"
      then obtain g r where "marker_at m (c # cs) = Some (g, r)" by auto
      then have "c # cs = [] @ m @ g @ ''>'' @ r \<and> g \<noteq> [] \<and> CHR ''>'' \<notin> set g"
        by (simp add: marker_at_Some_iff)
      then show ?thesis unfolding has_marker_def by blast
    next
      assume "has_marker m cs"
      then obtain a g b where "cs = a @ m @ g @ ''>'' @ b" "g \<noteq> []" "CHR ''>'' \<notin> set g"
        unfolding has_marker_def by blast
      then have "c # cs = (c # a) @ m @ g @ ''>'' @ b \<and> g \<noteq> [] \<and> CHR ''>'' \<notin> set g" by simp
      then show ?thesis unfolding has_marker_def by blast
    qed
  qed
  show ?case
  proof (cases "marker_at m (c # cs)")
    case None
    with Cons.IH step show ?thesis by simp
  next
    case (Some p)
    with step show ?thesis by simp
  qed
qed

section \<open>The action line of the pointer environment\<close>

lemma word_not_space: "is_word c \<Longrightarrow> \<not> is_space c"
  unfolding is_word_def is_space_def by auto

lemma paren_not_word: "\<not> is_word CHR ''(''"
  unfolding is_word_def by simp

lemma action_at_Some_iff:
  "action_at s = Some (nm, args) \<longleftrightarrow>
     (\<exists>ws b. s = ''Action:'' @ ws @ nm @ ''('' @ args @ '')'' @ b \<and>
        list_all is_space ws \<and> nm \<noteq> [] \<and> list_all is_word nm \<and> CHR '')'' \<notin> set args)"
proof
  assume a: "action_at s = Some (nm, args)"
  let ?Q = "\<lambda>c. c \<noteq> CHR '')''"
  let ?s1 = "drop (length ''Action:'') s"
  let ?t = "dropWhile is_space ?s1"
  let ?r = "dropWhile is_word ?t"
  from a have p: "prefix ''Action:'' s" by (auto simp: action_at_def split: if_splits)
  from a p have nm: "nm = takeWhile is_word ?t" "nm \<noteq> []"
    by (auto simp: action_at_def Let_def split: if_splits list.splits)
  from a p obtain u where r: "?r = CHR ''('' # u" and d: "dropWhile ?Q u \<noteq> []"
    and args: "args = takeWhile ?Q u"
    by (auto simp: action_at_def Let_def split: if_splits list.splits)
  from takeWhile_split [OF d] obtain y b where
    u: "u = takeWhile ?Q u @ y # b" and y: "\<not> ?Q y" by blast
  from p have "s = ''Action:'' @ ?s1" by (auto simp: prefix_def)
  moreover have "?s1 = takeWhile is_space ?s1 @ ?t" by simp
  moreover have "?t = nm @ ?r" using nm by simp
  ultimately have "s = ''Action:'' @ takeWhile is_space ?s1 @ nm @ ?r" by metis
  with r u args y have "s = ''Action:'' @ takeWhile is_space ?s1 @ nm @ ''('' @ args @ '')'' @ b"
    by simp
  moreover have "list_all is_space (takeWhile is_space ?s1)"
    by (simp add: list_all_iff) (meson set_takeWhileD)
  moreover have "list_all is_word nm"
    unfolding nm by (simp add: list_all_iff) (meson set_takeWhileD)
  moreover have "CHR '')'' \<notin> set args" using args by (auto dest: set_takeWhileD)
  ultimately show "\<exists>ws b. s = ''Action:'' @ ws @ nm @ ''('' @ args @ '')'' @ b \<and>
        list_all is_space ws \<and> nm \<noteq> [] \<and> list_all is_word nm \<and> CHR '')'' \<notin> set args"
    using nm(2) by blast
next
  assume "\<exists>ws b. s = ''Action:'' @ ws @ nm @ ''('' @ args @ '')'' @ b \<and>
        list_all is_space ws \<and> nm \<noteq> [] \<and> list_all is_word nm \<and> CHR '')'' \<notin> set args"
  then obtain ws b where s: "s = ''Action:'' @ ws @ nm @ ''('' @ args @ '')'' @ b"
    and ws: "list_all is_space ws" and nm: "nm \<noteq> []" "list_all is_word nm"
    and args: "CHR '')'' \<notin> set args" by blast
  from nm obtain n ns where n: "nm = n # ns" "is_word n" by (cases nm) auto
  then have nsp: "\<not> is_space n" by (simp add: word_not_space)
  have 1: "dropWhile is_space (ws @ n # ns @ ''('' @ args @ '')'' @ b) = n # ns @ ''('' @ args @ '')'' @ b"
    using takeWhile_stop [of ws is_space n] ws nsp by (simp add: list_all_iff)
  have 2: "takeWhile is_word (nm @ CHR ''('' # args @ '')'' @ b) = nm \<and>
           dropWhile is_word (nm @ CHR ''('' # args @ '')'' @ b) = CHR ''('' # args @ '')'' @ b"
    using nm(2) paren_not_word by (intro takeWhile_stop) (simp_all add: list_all_iff)
  have 3: "takeWhile (\<lambda>c. c \<noteq> CHR '')'') (args @ CHR '')'' # b) = args \<and>
           dropWhile (\<lambda>c. c \<noteq> CHR '')'') (args @ CHR '')'' # b) = CHR '')'' # b"
    using args by (intro takeWhile_stop) auto
  have "drop (length ''Action:'') s = ws @ n # ns @ ''('' @ args @ '')'' @ b"
    using s n by simp
  with 1 have t: "dropWhile is_space (drop (length ''Action:'') s) = nm @ CHR ''('' # args @ '')'' @ b"
    using n by simp
  have p: "prefix ''Action:'' s" using s by (simp add: prefix_def)
  show "action_at s = Some (nm, args)"
    unfolding action_at_def Let_def t using p 2 3 nm(1) by simp
qed

lemma match_action_None_iff: "match_action s = None \<longleftrightarrow> \<not> has_action s"
proof (induction s)
  case Nil
  show ?case by (simp add: has_action_def)
next
  case (Cons c cs)
  have step: "has_action (c # cs) \<longleftrightarrow> action_at (c # cs) \<noteq> None \<or> has_action cs"
  proof
    assume "has_action (c # cs)"
    then obtain a ws nm args b where a: "c # cs = a @ ''Action:'' @ ws @ nm @ ''('' @ args @ '')'' @ b"
      "list_all is_space ws" "nm \<noteq> []" "list_all is_word nm" "CHR '')'' \<notin> set args"
      unfolding has_action_def by blast
    show "action_at (c # cs) \<noteq> None \<or> has_action cs"
    proof (cases a)
      case Nil
      with a have "action_at (c # cs) = Some (nm, args)"
        unfolding action_at_Some_iff by auto
      then show ?thesis by simp
    next
      case (Cons x a')
      with a have "cs = a' @ ''Action:'' @ ws @ nm @ ''('' @ args @ '')'' @ b" by simp
      with a(2-5) have "has_action cs" unfolding has_action_def by blast
      then show ?thesis by simp
    qed
  next
    assume "action_at (c # cs) \<noteq> None \<or> has_action cs"
    then show "has_action (c # cs)"
    proof
      assume "action_at (c # cs) \<noteq> None"
      then obtain nm args where "action_at (c # cs) = Some (nm, args)" by auto
      then obtain ws b where "c # cs = [] @ ''Action:'' @ ws @ nm @ ''('' @ args @ '')'' @ b \<and>
        list_all is_space ws \<and> nm \<noteq> [] \<and> list_all is_word nm \<and> CHR '')'' \<notin> set args"
        unfolding action_at_Some_iff by auto
      then show ?thesis unfolding has_action_def by blast
    next
      assume "has_action cs"
      then obtain a ws nm args b where "cs = a @ ''Action:'' @ ws @ nm @ ''('' @ args @ '')'' @ b"
        "list_all is_space ws" "nm \<noteq> []" "list_all is_word nm" "CHR '')'' \<notin> set args"
        unfolding has_action_def by blast
      then have "c # cs = (c # a) @ ''Action:'' @ ws @ nm @ ''('' @ args @ '')'' @ b \<and>
        list_all is_space ws \<and> nm \<noteq> [] \<and> list_all is_word nm \<and> CHR '')'' \<notin> set args" by simp
      then show ?thesis unfolding has_action_def by blast
    qed
  qed
  show ?case
  proof (cases "action_at (c # cs)")
    case None
    with Cons.IH step show ?thesis by simp
  next
    case (Some p)
    with step show ?thesis by simp
  qed
qed

section \<open>Claims about the number of invocations and about errors\<close>

lemma code_tools_length:
  "length (code_tools h c) \<le> 1 \<and>
   (length (code_tools h c) = 1 \<longleftrightarrow>
      (\<exists>g. first_region ''<code_env>'' ''</code_env>'' c g \<and> has_marker ''<function='' g))"
proof (cases "match_between ''<code_env>'' ''</code_env>'' c")
  case None
  then have "\<And>g. \<not> first_region ''<code_env>'' ''</code_env>'' c g"
    by (simp add: match_between_Some_iff [symmetric])
  with None show ?thesis by (simp add: code_tools_def)
next
  case (Some g)
  then have u: "\<And>g'. first_region ''<code_env>'' ''</code_env>'' c g' \<longleftrightarrow> g' = g"
    by (auto simp: match_between_Some_iff [symmetric])
  show ?thesis
  proof (cases "match_marker ''<function='' g")
    case None
    then have "\<not> has_marker ''<function='' g" by (simp add: match_marker_None_iff)
    with None Some u show ?thesis by (simp add: code_tools_def)
  next
    case (Some p)
    then have "has_marker ''<function='' g"
      using match_marker_None_iff [of "''<function=''" g] by auto
    with Some \<open>match_between ''<code_env>'' ''</code_env>'' c = Some g\<close> u show ?thesis
      by (auto simp: code_tools_def split: prod.splits)
  qed
qed

lemma computer_tools_length:
  "length (computer_tools h c) \<le> 1 \<and>
   (length (computer_tools h c) = 1 \<longleftrightarrow>
      (\<exists>g. first_region ''<computer_env>'' ''</computer_env>'' c g \<and> has_action (trim g)))"
proof (cases "match_between ''<computer_env>'' ''</computer_env>'' c")
  case None
  then have "\<And>g. \<not> first_region ''<computer_env>'' ''</computer_env>'' c g"
    by (simp add: match_between_Some_iff [symmetric])
  with None show ?thesis by (simp add: computer_tools_def)
next
  case (Some g)
  then have u: "\<And>g'. first_region ''<computer_env>'' ''</computer_env>'' c g' \<longleftrightarrow> g' = g"
    by (auto simp: match_between_Some_iff [symmetric])
  show ?thesis
  proof (cases "match_action (trim g)")
    case None
    then have "\<not> has_action (trim g)" by (simp add: match_action_None_iff)
    with None Some u show ?thesis by (simp add: computer_tools_def)
  next
    case (Some p)
    then have "has_action (trim g)"
      using match_action_None_iff [of "trim g"] by auto
    with Some \<open>match_between ''<computer_env>'' ''</computer_env>'' c = Some g\<close> u show ?thesis
      by (auto simp: computer_tools_def split: prod.splits)
  qed
qed

lemma example_id: "generateToolCallId example_host k = ''call_1700000000000_4fzyo82mv''"
  by (simp add: generateToolCallId_def substring_def example_host_def show_int_def)

lemma example_stringify: "JSON_stringify example_host v = (case stringify v of None \<Rightarrow> [] | Some t \<Rightarrow> t)"
  by (simp add: example_host_def)

lemma mcp_tools_of_parse:
  assumes "match_between ''<mcp_env>'' ''</mcp_env>'' c = Some g"
    and "match_between ''<|FunctionCallBegin|>['' '']<|FunctionCallEnd|>'' g = Some payload"
    and "JSON_parse h (''['' @ payload @ '']'') = Inr (JArr calls)"
  shows "mcp_tools h c = snd (mcp_loop h calls [])"
proof -
  obtain e ts where l: "mcp_loop h calls [] = (e, ts)" by (cases "mcp_loop h calls []") auto
  with assms(3) have "mcp_try h payload = (e, ts)" by (simp add: mcp_try_def)
  then have "snd (snd (mcp_try_catch h payload)) = ts"
    by (simp add: mcp_try_catch_def split: option.splits)
  with assms(1,2) l show ?thesis by (simp add: mcp_tools_def mcp_statements_def)
qed

lemma example_parse_two:
  "JSON_parse example_host (''['' @ payload_two @ '']'') =
      Inr (JArr [JObj [(''name'', JStr ''search''), (''parameters'', JObj [(''q'', JStr ''tars'')])],
                 JObj [(''name'', JStr ''open''), (''parameters'', JObj [(''url'', JStr ''x'')])]])"
  by (simp add: example_host_def example_parse_def payload_two_def payload_partial_def
      payload_null_first_def payload_zero_def)

lemma mcp_example_two:
  "map call_content (mcp_tools example_host (mcp_text payload_two)) =
     [(''function'', JStr ''search'', JSON_stringify example_host (JObj [(''q'', JStr ''tars'')])),
      (''function'', JStr ''open'', JSON_stringify example_host (JObj [(''url'', JStr ''x'')]))]"
proof -
  have 1: "match_between ''<mcp_env>'' ''</mcp_env>'' (mcp_text payload_two) =
     Some (''<|FunctionCallBegin|>['' @ payload_two @ '']<|FunctionCallEnd|>'')"
    by code_simp
  have 2: "match_between ''<|FunctionCallBegin|>['' '']<|FunctionCallEnd|>''
     (''<|FunctionCallBegin|>['' @ payload_two @ '']<|FunctionCallEnd|>'') = Some payload_two"
    by code_simp
  show ?thesis
    unfolding mcp_tools_of_parse [OF 1 2 example_parse_two]
    by (simp add: make_tool_def call_content_def)
qed

text \<open>
  Claim C9. The code-environment decoder and the pointer-environment decoder emit at most
  one invocation: exactly one when the first region exists and holds a function marker
  (an action line, in the trimmed region), none otherwise. The tool-environment decoder
  can emit more: it emits two on a payload of two well-formed descriptors.
\<close>

theorem invocation_counts:
  "(\<exists>p. parseCodeContent h c = Inr p \<and> length (actions p) \<le> 1 \<and>
        (length (actions p) = 1 \<longleftrightarrow>
           (\<exists>g. first_region ''<code_env>'' ''</code_env>'' c g \<and> has_marker ''<function='' g))) \<and>
   (\<exists>p. parseComputerContent h c = Inr p \<and> length (actions p) \<le> 1 \<and>
        (length (actions p) = 1 \<longleftrightarrow>
           (\<exists>g. first_region ''<computer_env>'' ''</computer_env>'' c g \<and> has_action (trim g)))) \<and>
   (\<exists>p. parseMcpContent example_host
          (mcp_text payload_two) =
          Inr p \<and> length (actions p) = 2)"
proof -
  have "length (map call_content (mcp_tools example_host
     (mcp_text payload_two))) = 2"
    by (simp only: mcp_example_two) simp
  then have "length (mcp_tools example_host
     (mcp_text payload_two)) = 2"
    by simp
  then show ?thesis
    using code_tools_length [of h c] computer_tools_length [of h c]
    by (simp add: parseCodeContent_def parseComputerContent_def parseMcpContent_eq
        actions_make_result)
qed

theorem invocation_counts_witness:
  "first_region ''<code_env>'' ''</code_env>''
     ''<code_env><function=run><parameter=cmd>ls -la</code_env>''
     ''<function=run><parameter=cmd>ls -la'' \<and>
   has_marker ''<function='' ''<function=run><parameter=cmd>ls -la'' \<and>
   (\<exists>p. parseCodeContent example_host
          ''<code_env><function=run><parameter=cmd>ls -la</code_env>'' = Inr p \<and>
        length (actions p) = 1) \<and>
   first_region ''<computer_env>'' ''</computer_env>''
     ''<computer_env> Action: wait() </computer_env>'' '' Action: wait() '' \<and>
   has_action (trim '' Action: wait() '') \<and>
   (\<exists>p. parseComputerContent example_host
          ''<computer_env> Action: wait() </computer_env>'' = Inr p \<and>
        length (actions p) = 1)"
proof -
  let ?c = "''<code_env><function=run><parameter=cmd>ls -la</code_env>''"
  let ?d = "''<computer_env> Action: wait() </computer_env>''"
  have 1: "first_region ''<code_env>'' ''</code_env>'' ?c ''<function=run><parameter=cmd>ls -la''"
    unfolding match_between_Some_iff [symmetric] by code_simp
  have "match_marker ''<function='' ''<function=run><parameter=cmd>ls -la'' \<noteq> None"
    by code_simp
  then have 2: "has_marker ''<function='' ''<function=run><parameter=cmd>ls -la''"
    unfolding match_marker_None_iff by blast
  have 3: "first_region ''<computer_env>'' ''</computer_env>'' ?d '' Action: wait() ''"
    unfolding match_between_Some_iff [symmetric] by code_simp
  have "match_action (trim '' Action: wait() '') \<noteq> None" by code_simp
  then have 4: "has_action (trim '' Action: wait() '')"
    unfolding match_action_None_iff by blast
  from invocation_counts [of example_host ?c] 1 2
  have 5: "\<exists>p. parseCodeContent example_host ?c = Inr p \<and> length (actions p) = 1"
    by blast
  from invocation_counts [of example_host ?d] 3 4
  have 6: "\<exists>p. parseComputerContent example_host ?d = Inr p \<and> length (actions p) = 1"
    by blast
  from 1 2 3 4 5 6 show ?thesis by blast
qed

lemma mcp_tools_parse_error:
  assumes "match_between ''<mcp_env>'' ''</mcp_env>'' c = Some g"
    and "match_between ''<|FunctionCallBegin|>['' '']<|FunctionCallEnd|>'' g = Some payload"
    and "JSON_parse h (''['' @ payload @ '']'') = Inl e"
  shows "mcp_tools h c = []"
  using assms
  by (simp add: mcp_tools_def mcp_statements_def mcp_try_catch_def mcp_try_def)

text \<open>
  Claim C1. For every text and every host, each decoder returns a result and throws
  nothing: the only operations that can throw, \<^verbatim>\<open>JSON.parse\<close> and the reads inside the
  loop, stand in the \<^verbatim>\<open>try\<close> block, whose handler completes normally. In the degenerate
  cases the result has empty parts: no reasoning tags give an empty reasoning, no answer
  tags an empty answer, and an absent region, a region without its function marker,
  sentinel pair or action line, or a payload that \<^verbatim>\<open>JSON.parse\<close> rejects, give no
  \<^verbatim>\<open>tools\<close>.
\<close>

theorem decoders_never_throw:
  "(\<exists>p. parseCodeContent h c = Inr p \<and>
        (\<not> has_region THINK_OPEN THINK_CLOSE c \<longrightarrow> think p = []) \<and>
        (\<not> has_region ''<answer>'' ''</answer>'' c \<longrightarrow> answer p = []) \<and>
        (\<not> has_region ''<code_env>'' ''</code_env>'' c \<longrightarrow> tools p = None) \<and>
        (\<forall>g. first_region ''<code_env>'' ''</code_env>'' c g \<and> \<not> has_marker ''<function='' g \<longrightarrow>
             tools p = None)) \<and>
   (\<exists>p. parseMcpContent h c = Inr p \<and>
        (\<not> has_region THINK_OPEN THINK_CLOSE c \<longrightarrow> think p = []) \<and>
        (\<not> has_region ''<answer>'' ''</answer>'' c \<longrightarrow> answer p = []) \<and>
        (\<not> has_region ''<mcp_env>'' ''</mcp_env>'' c \<longrightarrow> tools p = None) \<and>
        (\<forall>g. first_region ''<mcp_env>'' ''</mcp_env>'' c g \<and>
             \<not> has_region ''<|FunctionCallBegin|>['' '']<|FunctionCallEnd|>'' g \<longrightarrow>
             tools p = None) \<and>
        (\<forall>g payload e. first_region ''<mcp_env>'' ''</mcp_env>'' c g \<and>
             first_region ''<|FunctionCallBegin|>['' '']<|FunctionCallEnd|>'' g payload \<and>
             JSON_parse h (''['' @ payload @ '']'') = Inl e \<longrightarrow>
             tools p = None)) \<and>
   (\<exists>p. parseComputerContent h c = Inr p \<and>
        (\<not> has_region THINK_OPEN THINK_CLOSE c \<longrightarrow> think p = []) \<and>
        (\<not> has_region ''<answer>'' ''</answer>'' c \<longrightarrow> answer p = []) \<and>
        (\<not> has_region ''<computer_env>'' ''</computer_env>'' c \<longrightarrow> tools p = None) \<and>
        (\<forall>g. first_region ''<computer_env>'' ''</computer_env>'' c g \<and> \<not> has_action (trim g) \<longrightarrow>
             tools p = None))"
proof -
  have th: "\<not> has_region THINK_OPEN THINK_CLOSE c \<longrightarrow> extractThinkContent c = []"
    by (simp add: extractThinkContent_def match_between_None_iff [symmetric])
  have an: "\<not> has_region ''<answer>'' ''</answer>'' c \<longrightarrow> extractAnswerContent c = []"
    by (simp add: extractAnswerContent_def match_between_None_iff [symmetric])
  have c1: "\<not> has_region ''<code_env>'' ''</code_env>'' c \<longrightarrow> code_tools h c = []"
    by (simp add: code_tools_def match_between_None_iff [symmetric])
  have c2: "\<forall>g. first_region ''<code_env>'' ''</code_env>'' c g \<and> \<not> has_marker ''<function='' g \<longrightarrow>
      code_tools h c = []"
    by (simp add: code_tools_def match_between_Some_iff [symmetric]
        match_marker_None_iff [symmetric])
  have m1: "\<not> has_region ''<mcp_env>'' ''</mcp_env>'' c \<longrightarrow> mcp_tools h c = []"
    by (simp add: mcp_tools_def mcp_statements_def match_between_None_iff [symmetric])
  have m2: "\<forall>g. first_region ''<mcp_env>'' ''</mcp_env>'' c g \<and>
      \<not> has_region ''<|FunctionCallBegin|>['' '']<|FunctionCallEnd|>'' g \<longrightarrow> mcp_tools h c = []"
    by (simp add: mcp_tools_def mcp_statements_def match_between_Some_iff [symmetric]
        match_between_None_iff [symmetric])
  have m3: "\<forall>g payload e. first_region ''<mcp_env>'' ''</mcp_env>'' c g \<and>
      first_region ''<|FunctionCallBegin|>['' '']<|FunctionCallEnd|>'' g payload \<and>
      JSON_parse h (''['' @ payload @ '']'') = Inl e \<longrightarrow> mcp_tools h c = []"
    using mcp_tools_parse_error by (auto simp: match_between_Some_iff [symmetric])
  have p1: "\<not> has_region ''<computer_env>'' ''</computer_env>'' c \<longrightarrow> computer_tools h c = []"
    by (simp add: computer_tools_def match_between_None_iff [symmetric])
  have p2: "\<forall>g. first_region ''<computer_env>'' ''</computer_env>'' c g \<and> \<not> has_action (trim g) \<longrightarrow>
      computer_tools h c = []"
    by (simp add: computer_tools_def match_between_Some_iff [symmetric]
        match_action_None_iff [symmetric])
  have 1: "\<exists>p. parseCodeContent h c = Inr p \<and>
        (\<not> has_region THINK_OPEN THINK_CLOSE c \<longrightarrow> think p = []) \<and>
        (\<not> has_region ''<answer>'' ''</answer>'' c \<longrightarrow> answer p = []) \<and>
        (\<not> has_region ''<code_env>'' ''</code_env>'' c \<longrightarrow> tools p = None) \<and>
        (\<forall>g. first_region ''<code_env>'' ''</code_env>'' c g \<and> \<not> has_marker ''<function='' g \<longrightarrow>
             tools p = None)"
    using th an c1 c2 by (simp add: parseCodeContent_def make_result_def)
  have 2: "\<exists>p. parseMcpContent h c = Inr p \<and>
        (\<not> has_region THINK_OPEN THINK_CLOSE c \<longrightarrow> think p = []) \<and>
        (\<not> has_region ''<answer>'' ''</answer>'' c \<longrightarrow> answer p = []) \<and>
        (\<not> has_region ''<mcp_env>'' ''</mcp_env>'' c \<longrightarrow> tools p = None) \<and>
        (\<forall>g. first_region ''<mcp_env>'' ''</mcp_env>'' c g \<and>
             \<not> has_region ''<|FunctionCallBegin|>['' '']<|FunctionCallEnd|>'' g \<longrightarrow>
             tools p = None) \<and>
        (\<forall>g payload e. first_region ''<mcp_env>'' ''</mcp_env>'' c g \<and>
             first_region ''<|FunctionCallBegin|>['' '']<|FunctionCallEnd|>'' g payload \<and>
             JSON_parse h (''['' @ payload @ '']'') = Inl e \<longrightarrow>
             tools p = None)"
    using th an m1 m2 m3 by (simp add: parseMcpContent_eq make_result_def)
  have 3: "\<exists>p. parseComputerContent h c = Inr p \<and>
        (\<not> has_region THINK_OPEN THINK_CLOSE c \<longrightarrow> think p = []) \<and>
        (\<not> has_region ''<answer>'' ''</answer>'' c \<longrightarrow> answer p = []) \<and>
        (\<not> has_region ''<computer_env>'' ''</computer_env>'' c \<longrightarrow> tools p = None) \<and>
        (\<forall>g. first_region ''<computer_env>'' ''</computer_env>'' c g \<and> \<not> has_action (trim g) \<longrightarrow>
             tools p = None)"
    using th an p1 p2 by (simp add: parseComputerContent_def make_result_def)
  from 1 2 3 show ?thesis by blast
qed

theorem decoders_never_throw_witness:
  "\<not> has_region THINK_OPEN THINK_CLOSE (mcp_text ''{oops'') \<and>
   \<not> has_region ''<answer>'' ''</answer>'' (mcp_text ''{oops'') \<and>
   first_region ''<mcp_env>'' ''</mcp_env>'' (mcp_text ''{oops'')
     ''<|FunctionCallBegin|>[{oops]<|FunctionCallEnd|>'' \<and>
   first_region ''<|FunctionCallBegin|>['' '']<|FunctionCallEnd|>''
     ''<|FunctionCallBegin|>[{oops]<|FunctionCallEnd|>'' ''{oops'' \<and>
   JSON_parse example_host (''['' @ ''{oops'' @ '']'') = Inl SyntaxError \<and>
   (\<exists>p. parseMcpContent example_host (mcp_text ''{oops'') = Inr p \<and>
        think p = [] \<and> answer p = [] \<and> tools p = None) \<and>
   first_region ''<code_env>'' ''</code_env>'' ''<code_env><parameter=a>1</code_env>''
     ''<parameter=a>1'' \<and>
   \<not> has_marker ''<function='' ''<parameter=a>1'' \<and>
   (\<exists>p. parseCodeContent example_host ''<code_env><parameter=a>1</code_env>'' = Inr p \<and>
        tools p = None) \<and>
   first_region ''<computer_env>'' ''</computer_env>'' ''<computer_env>click 1 2</computer_env>''
     ''click 1 2'' \<and>
   \<not> has_action (trim ''click 1 2'') \<and>
   (\<exists>p. parseComputerContent example_host ''<computer_env>click 1 2</computer_env>'' = Inr p \<and>
        tools p = None)"
proof -
  let ?x = "mcp_text ''{oops''"
  let ?y = "''<code_env><parameter=a>1</code_env>''"
  let ?z = "''<computer_env>click 1 2</computer_env>''"
  have a1: "\<not> has_region THINK_OPEN THINK_CLOSE ?x"
    unfolding match_between_None_iff [symmetric] by code_simp
  have a2: "\<not> has_region ''<answer>'' ''</answer>'' ?x"
    unfolding match_between_None_iff [symmetric] by code_simp
  have a3: "first_region ''<mcp_env>'' ''</mcp_env>'' ?x
      ''<|FunctionCallBegin|>[{oops]<|FunctionCallEnd|>''"
    unfolding match_between_Some_iff [symmetric] by code_simp
  have a4: "first_region ''<|FunctionCallBegin|>['' '']<|FunctionCallEnd|>''
      ''<|FunctionCallBegin|>[{oops]<|FunctionCallEnd|>'' ''{oops''"
    unfolding match_between_Some_iff [symmetric] by code_simp
  have a5: "JSON_parse example_host (''['' @ ''{oops'' @ '']'') = Inl SyntaxError"
    by (simp add: example_host_def example_parse_def payload_two_def payload_partial_def
        payload_null_first_def payload_zero_def)
  have b1: "first_region ''<code_env>'' ''</code_env>'' ?y ''<parameter=a>1''"
    unfolding match_between_Some_iff [symmetric] by code_simp
  have b2: "\<not> has_marker ''<function='' ''<parameter=a>1''"
    unfolding match_marker_None_iff [symmetric] by code_simp
  have c1: "first_region ''<computer_env>'' ''</computer_env>'' ?z ''click 1 2''"
    unfolding match_between_Some_iff [symmetric] by code_simp
  have c2: "\<not> has_action (trim ''click 1 2'')"
    unfolding match_action_None_iff [symmetric] by code_simp
  from decoders_never_throw [of example_host ?x, THEN conjunct2, THEN conjunct1]
  obtain p where p: "parseMcpContent example_host ?x = Inr p"
    and p1: "\<not> has_region THINK_OPEN THINK_CLOSE ?x \<longrightarrow> think p = []"
    and p2: "\<not> has_region ''<answer>'' ''</answer>'' ?x \<longrightarrow> answer p = []"
    and p3: "\<forall>g payload e. first_region ''<mcp_env>'' ''</mcp_env>'' ?x g \<and>
             first_region ''<|FunctionCallBegin|>['' '']<|FunctionCallEnd|>'' g payload \<and>
             JSON_parse example_host (''['' @ payload @ '']'') = Inl e \<longrightarrow>
             tools p = None"
    by (elim exE conjE)
  from p3 [rule_format, OF conjI [OF a3 conjI [OF a4 a5]]] have "tools p = None" .
  with p p1 [rule_format, OF a1] p2 [rule_format, OF a2]
  have A: "\<exists>p. parseMcpContent example_host ?x = Inr p \<and>
        think p = [] \<and> answer p = [] \<and> tools p = None"
    by (intro exI [of _ p] conjI)
  from decoders_never_throw [of example_host ?y, THEN conjunct1]
  obtain q where q: "parseCodeContent example_host ?y = Inr q"
    and q1: "\<forall>g. first_region ''<code_env>'' ''</code_env>'' ?y g \<and> \<not> has_marker ''<function='' g \<longrightarrow>
             tools q = None"
    by (elim exE conjE)
  from q q1 [rule_format, OF conjI [OF b1 b2]]
  have B: "\<exists>p. parseCodeContent example_host ?y = Inr p \<and> tools p = None"
    by (intro exI [of _ q] conjI)
  from decoders_never_throw [of example_host ?z, THEN conjunct2, THEN conjunct2]
  obtain r where r: "parseComputerContent example_host ?z = Inr r"
    and r1: "\<forall>g. first_region ''<computer_env>'' ''</computer_env>'' ?z g \<and> \<not> has_action (trim g) \<longrightarrow>
             tools r = None"
    by (elim exE conjE)
  from r r1 [rule_format, OF conjI [OF c1 c2]]
  have C: "\<exists>p. parseComputerContent example_host ?z = Inr p \<and> tools p = None"
    by (intro exI [of _ r] conjI)
  show ?thesis
    by (intro conjI a1 a2 a3 a4 a5 A b1 b2 B c1 c2 C)
qed

section \<open>Claims about the tool environment\<close>

lemma get_field_prop_of:
  "d \<noteq> JNull \<Longrightarrow> d \<noteq> JUndefined \<Longrightarrow> get_field d k = Inr (prop_of d k)"
  by (cases d) (simp_all add: prop_of_def)

lemma mcp_loop_no_null:
  assumes "JNull \<notin> set calls" and "JUndefined \<notin> set calls"
  shows "fst (mcp_loop h calls ts) = None \<and>
         map name_and_arguments (snd (mcp_loop h calls ts)) =
           map name_and_arguments ts @
           map (\<lambda>d. (prop_of d ''name'', JSON_stringify h (prop_of d ''parameters'')))
             (filter emits calls)"
  using assms
proof (induction calls arbitrary: ts)
  case Nil
  then show ?case by simp
next
  case (Cons d calls)
  then have d: "d \<noteq> JNull" "d \<noteq> JUndefined" and r: "JNull \<notin> set calls" "JUndefined \<notin> set calls"
    by auto
  note ih = Cons.IH [OF r]
  have n: "get_field d ''name'' = Inr (prop_of d ''name'')"
    and p: "get_field d ''parameters'' = Inr (prop_of d ''parameters'')"
    using d by (simp_all add: get_field_prop_of)
  show ?case
  proof (cases "emits d")
    case True
    then have "mcp_loop h (d # calls) ts =
        mcp_loop h calls (ts @ [make_tool h (length ts) (prop_of d ''name'') (prop_of d ''parameters'')])"
      using n p by (simp add: emits_def)
    then show ?thesis
      using True ih [of "ts @ [make_tool h (length ts) (prop_of d ''name'') (prop_of d ''parameters'')]"]
      by (simp add: make_tool_def name_and_arguments_def)
  next
    case False
    then have "mcp_loop h (d # calls) ts = mcp_loop h calls ts"
      using n p by (auto simp: emits_def)
    then show ?thesis using False ih [of ts] by simp
  qed
qed

text \<open>A \<^verbatim>\<open>null\<close> element ends the loop: what was emitted before it stays, the rest is lost.\<close>

lemma mcp_loop_null: "mcp_loop h (JNull # calls) ts = (Some TypeError, ts)"
  by simp

text \<open>
  Claim C2, as amended. For every successfully parsed descriptor array without a
  \<^verbatim>\<open>null\<close> element, and for each descriptor in array order: if its \<^verbatim>\<open>name\<close> and its
  \<^verbatim>\<open>parameters\<close> are both truthy, an invocation with that name and with
  \<^verbatim>\<open>JSON.stringify(parameters)\<close> as arguments is emitted; otherwise the descriptor is
  dropped and decoding continues with the remaining descriptors.
\<close>

theorem descriptors_decoded_in_order:
  assumes "first_region ''<mcp_env>'' ''</mcp_env>'' c g"
    and "first_region ''<|FunctionCallBegin|>['' '']<|FunctionCallEnd|>'' g payload"
    and "JSON_parse h (''['' @ payload @ '']'') = Inr (JArr calls)"
    and "JNull \<notin> set calls" and "JUndefined \<notin> set calls"
  shows "\<exists>p. parseMcpContent h c = Inr p \<and>
           map name_and_arguments (actions p) =
             map (\<lambda>d. (prop_of d ''name'', JSON_stringify h (prop_of d ''parameters'')))
               (filter emits calls)"
proof -
  from assms(1) have 1: "match_between ''<mcp_env>'' ''</mcp_env>'' c = Some g"
    by (simp add: match_between_Some_iff)
  from assms(2) have 2: "match_between ''<|FunctionCallBegin|>['' '']<|FunctionCallEnd|>'' g = Some payload"
    by (simp add: match_between_Some_iff)
  have "mcp_tools h c = snd (mcp_loop h calls [])"
    using 1 2 assms(3) by (rule mcp_tools_of_parse)
  then have "map name_and_arguments (mcp_tools h c) =
      map (\<lambda>d. (prop_of d ''name'', JSON_stringify h (prop_of d ''parameters''))) (filter emits calls)"
    using mcp_loop_no_null [OF assms(4,5), of h "[]"] by simp
  then show ?thesis by (simp add: parseMcpContent_eq actions_make_result)
qed

lemma example_parse_partial:
  "JSON_parse example_host (''['' @ payload_partial @ '']'') =
      Inr (JArr [JObj [(''name'', JStr ''search''), (''parameters'', JObj [(''q'', JStr ''tars'')])],
                 JObj [(''name'', JStr ''broken'')]])"
  by (simp add: example_host_def example_parse_def payload_two_def payload_partial_def
      payload_null_first_def payload_zero_def)

lemma example_parse_null_first:
  "JSON_parse example_host (''['' @ payload_null_first @ '']'') =
      Inr (JArr [JNull,
                 JObj [(''name'', JStr ''search''), (''parameters'', JObj [(''q'', JStr ''tars'')])]])"
  by (simp add: example_host_def example_parse_def payload_two_def payload_partial_def
      payload_null_first_def payload_zero_def)

lemma example_parse_zero:
  "JSON_parse example_host (''['' @ payload_zero @ '']'') =
      Inr (JArr [JObj [(''name'', JStr ''count''), (''parameters'', JNum (Near 0))]])"
  by (simp add: example_host_def example_parse_def payload_two_def payload_partial_def
      payload_null_first_def payload_zero_def)

lemma mcp_text_region:
  "first_region ''<mcp_env>'' ''</mcp_env>'' (mcp_text payload)
     (''<|FunctionCallBegin|>['' @ payload @ '']<|FunctionCallEnd|>'') \<Longrightarrow>
   first_region ''<|FunctionCallBegin|>['' '']<|FunctionCallEnd|>''
     (''<|FunctionCallBegin|>['' @ payload @ '']<|FunctionCallEnd|>'') payload \<Longrightarrow>
   JSON_parse h (''['' @ payload @ '']'') = Inr (JArr calls) \<Longrightarrow>
   mcp_tools h (mcp_text payload) = snd (mcp_loop h calls [])"
  by (rule mcp_tools_of_parse) (simp_all add: match_between_Some_iff)

theorem descriptors_decoded_in_order_witness:
  "first_region ''<mcp_env>'' ''</mcp_env>'' (mcp_text payload_partial)
     (''<|FunctionCallBegin|>['' @ payload_partial @ '']<|FunctionCallEnd|>'') \<and>
   first_region ''<|FunctionCallBegin|>['' '']<|FunctionCallEnd|>''
     (''<|FunctionCallBegin|>['' @ payload_partial @ '']<|FunctionCallEnd|>'') payload_partial \<and>
   JSON_parse example_host (''['' @ payload_partial @ '']'') =
      Inr (JArr [JObj [(''name'', JStr ''search''), (''parameters'', JObj [(''q'', JStr ''tars'')])],
                 JObj [(''name'', JStr ''broken'')]]) \<and>
   (\<exists>p. parseMcpContent example_host (mcp_text payload_partial) = Inr p \<and>
        map name_and_arguments (actions p) =
          [(JStr ''search'', JSON_stringify example_host (JObj [(''q'', JStr ''tars'')]))])"
proof -
  have 1: "first_region ''<mcp_env>'' ''</mcp_env>'' (mcp_text payload_partial)
     (''<|FunctionCallBegin|>['' @ payload_partial @ '']<|FunctionCallEnd|>'')"
    unfolding match_between_Some_iff [symmetric] by code_simp
  have 2: "first_region ''<|FunctionCallBegin|>['' '']<|FunctionCallEnd|>''
     (''<|FunctionCallBegin|>['' @ payload_partial @ '']<|FunctionCallEnd|>'') payload_partial"
    unfolding match_between_Some_iff [symmetric] by code_simp
  have 3: "JNull \<notin> set [JObj [(''name'', JStr ''search''), (''parameters'', JObj [(''q'', JStr ''tars'')])],
                 JObj [(''name'', JStr ''broken'')]]" by simp
  have 4: "JUndefined \<notin> set [JObj [(''name'', JStr ''search''), (''parameters'', JObj [(''q'', JStr ''tars'')])],
                 JObj [(''name'', JStr ''broken'')]]" by simp
  from descriptors_decoded_in_order [OF 1 2 example_parse_partial 3 4]
  have "\<exists>p. parseMcpContent example_host (mcp_text payload_partial) = Inr p \<and>
        map name_and_arguments (actions p) =
          [(JStr ''search'', JSON_stringify example_host (JObj [(''q'', JStr ''tars'')]))]"
    by (simp add: emits_def prop_of_def)
  with 1 2 example_parse_partial show ?thesis by (intro conjI)
qed

text \<open>
  The claim as stated fails twice. A descriptor whose \<^verbatim>\<open>name\<close> and \<^verbatim>\<open>parameters\<close> are
  both present is dropped when one of them is falsy (here \<^verbatim>\<open>parameters\<close> is \<open>0\<close>). And a
  \<^verbatim>\<open>null\<close> entry does invalidate its siblings: the read of \<^verbatim>\<open>null.name\<close> throws, the
  handler ends the loop, and the well-formed descriptor after it is never decoded.
\<close>

theorem descriptors_decoded_in_order_counterexample:
  "prop_of (JObj [(''name'', JStr ''count''), (''parameters'', JNum (Near 0))]) ''name'' = JStr ''count'' \<and>
   prop_of (JObj [(''name'', JStr ''count''), (''parameters'', JNum (Near 0))]) ''parameters'' = JNum (Near 0) \<and>
   JSON_parse example_host (''['' @ payload_zero @ '']'') =
      Inr (JArr [JObj [(''name'', JStr ''count''), (''parameters'', JNum (Near 0))]]) \<and>
   map_sum id actions (parseMcpContent example_host (mcp_text payload_zero)) = Inr [] \<and>
   JSON_parse example_host (''['' @ payload_null_first @ '']'') =
      Inr (JArr [JNull,
                 JObj [(''name'', JStr ''search''), (''parameters'', JObj [(''q'', JStr ''tars'')])]]) \<and>
   map_sum id actions (parseMcpContent example_host (mcp_text payload_null_first)) = Inr []"
proof -
  have a: "mcp_tools example_host (mcp_text payload_zero) =
      snd (mcp_loop example_host [JObj [(''name'', JStr ''count''), (''parameters'', JNum (Near 0))]] [])"
    by (rule mcp_text_region [OF _ _ example_parse_zero])
      (unfold match_between_Some_iff [symmetric], code_simp+)
  have b: "mcp_tools example_host (mcp_text payload_null_first) =
      snd (mcp_loop example_host [JNull,
                 JObj [(''name'', JStr ''search''), (''parameters'', JObj [(''q'', JStr ''tars'')])]] [])"
    by (rule mcp_text_region [OF _ _ example_parse_null_first])
      (unfold match_between_Some_iff [symmetric], code_simp+)
  have c: "map_sum id actions (parseMcpContent example_host (mcp_text payload_zero)) = Inr []"
    unfolding parseMcpContent_eq by (simp add: a actions_make_result)
  have d: "map_sum id actions (parseMcpContent example_host (mcp_text payload_null_first)) = Inr []"
    unfolding parseMcpContent_eq by (simp add: b actions_make_result)
  have e: "prop_of (JObj [(''name'', JStr ''count''), (''parameters'', JNum (Near 0))]) ''name'' =
      JStr ''count''" by (simp add: prop_of_def)
  have f: "prop_of (JObj [(''name'', JStr ''count''), (''parameters'', JNum (Near 0))]) ''parameters'' =
      JNum (Near 0)" by (simp add: prop_of_def)
  show ?thesis
    by (intro conjI e f example_parse_zero c example_parse_null_first d)
qed

section \<open>Assignments to the arguments object\<close>

lemma insert_index_keys: "fst ` set (insert_index k v ps) = insert k (fst ` set ps)"
proof (induction ps)
  case Nil
  show ?case by simp
next
  case (Cons p ps)
  obtain k' v' where p: "p = (k', v')" by (cases p)
  show ?case
  proof (cases "is_array_index k' \<and> digits_value k' < digits_value k")
    case True
    with p Cons.IH show ?thesis by auto
  next
    case False
    with p show ?thesis by auto
  qed
qed

lemma insert_index_map_of:
  "k \<notin> fst ` set ps \<Longrightarrow> map_of (insert_index k v ps) = (map_of ps)(k \<mapsto> v)"
proof (induction ps)
  case Nil
  then show ?case by simp
next
  case (Cons p ps)
  obtain k' v' where p: "p = (k', v')" by (cases p)
  with Cons.prems have ne: "k' \<noteq> k" and nin: "k \<notin> fst ` set ps" by auto
  show ?case
  proof (cases "is_array_index k' \<and> digits_value k' < digits_value k")
    case True
    with p Cons.IH [OF nin] ne show ?thesis by (auto simp: fun_eq_iff)
  next
    case False
    with p show ?thesis by (auto simp: fun_eq_iff)
  qed
qed

lemma insert_index_other:
  "is_array_index k \<Longrightarrow>
     filter (\<lambda>x. \<not> is_array_index x) (map fst (insert_index k v ps)) =
     filter (\<lambda>x. \<not> is_array_index x) (map fst ps)"
proof (induction ps)
  case Nil
  then show ?case by simp
next
  case (Cons p ps)
  then show ?case by (cases p) simp
qed

lemma insert_index_distinct:
  "k \<notin> fst ` set ps \<Longrightarrow> distinct (map fst ps) \<Longrightarrow> distinct (map fst (insert_index k v ps))"
proof (induction ps)
  case Nil
  then show ?case by simp
next
  case (Cons p ps)
  obtain k' v' where p: "p = (k', v')" by (cases p)
  with Cons.prems have ne: "k' \<noteq> k" and nin: "k \<notin> fst ` set ps"
    and d: "distinct (map fst ps)" and n': "k' \<notin> fst ` set ps" by auto
  show ?case
  proof (cases "is_array_index k' \<and> digits_value k' < digits_value k")
    case True
    have "k' \<notin> fst ` set (insert_index k v ps)"
      using ne n' by (simp add: insert_index_keys)
    with True p Cons.IH [OF nin d] show ?thesis by simp
  next
    case False
    with p Cons.prems show ?thesis by auto
  qed
qed

lemma update_keys: "map fst (map (\<lambda>(k', v'). if k' = k then (k', v) else (k', v')) ps) = map fst ps"
proof (induction ps)
  case Nil
  show ?case by simp
next
  case (Cons p ps)
  then show ?case by (cases p) simp
qed

lemma update_map_of:
  "k \<in> fst ` set ps \<Longrightarrow>
     map_of (map (\<lambda>(k', v'). if k' = k then (k', v) else (k', v')) ps) = (map_of ps)(k \<mapsto> v)"
proof (induction ps)
  case Nil
  then show ?case by simp
next
  case (Cons p ps)
  obtain k' v' where p: "p = (k', v')" by (cases p)
  show ?case
  proof (cases "k' = k")
    case True
    show ?thesis
    proof (cases "k \<in> fst ` set ps")
      case in_ps: True
      from Cons.IH [OF in_ps] True p show ?thesis by (auto simp: fun_eq_iff)
    next
      case False
      then have "map (\<lambda>(k', v'). if k' = k then (k', v) else (k', v')) ps = ps"
        by (induction ps) auto
      with True p show ?thesis by (auto simp: fun_eq_iff)
    qed
  next
    case False
    with Cons.prems p have "k \<in> fst ` set ps" by auto
    from Cons.IH [OF this] False p show ?thesis by (auto simp: fun_eq_iff)
  qed
qed

lemma append_map_of: "k \<notin> fst ` set ps \<Longrightarrow> map_of (ps @ [(k, v)]) = (map_of ps)(k \<mapsto> v)"
proof (induction ps)
  case Nil
  show ?case by simp
next
  case (Cons p ps)
  obtain k' v' where p: "p = (k', v')" by (cases p)
  with Cons.prems have ne: "k' \<noteq> k" and nin: "k \<notin> fst ` set ps" by auto
  from Cons.IH [OF nin] p ne show ?case by (auto simp: fun_eq_iff)
qed

lemma update_keys': "map (fst \<circ> (\<lambda>(k', v'). if k' = k then (k', v) else (k', v'))) ps = map fst ps"
  using update_keys [of k v ps] by simp

lemma obj_set_cases:
  "obj_set ps k v =
     (if k = ''__proto__'' then ps
      else if k \<in> fst ` set ps then map (\<lambda>(k', v'). if k' = k then (k', v) else (k', v')) ps
      else if is_array_index k then insert_index k v ps
      else ps @ [(k, v)])"
  by (simp only: obj_set_def)

lemma obj_set_map_of:
  "map_of (obj_set ps k v) = (if k = ''__proto__'' then map_of ps else (map_of ps)(k \<mapsto> v))"
proof (cases "k = ''__proto__''")
  case True
  then show ?thesis by (simp add: obj_set_cases)
next
  case np: False
  show ?thesis
  proof (cases "k \<in> fst ` set ps")
    case True
    with np show ?thesis by (simp add: obj_set_cases update_map_of del: set_map map_of_append)
  next
    case nin: False
    show ?thesis
    proof (cases "is_array_index k")
      case True
      with np nin show ?thesis
        by (simp add: obj_set_cases insert_index_map_of del: set_map map_of_append)
    next
      case False
      with np nin show ?thesis
        by (simp add: obj_set_cases append_map_of del: set_map map_of_append)
    qed
  qed
qed

lemma obj_set_keys:
  "fst ` set (obj_set ps k v) =
     (if k = ''__proto__'' then fst ` set ps else insert k (fst ` set ps))"
proof (cases "k = ''__proto__''")
  case True
  then show ?thesis by (simp add: obj_set_cases)
next
  case np: False
  show ?thesis
  proof (cases "k \<in> fst ` set ps")
    case True
    have "fst ` set (map (\<lambda>(k', v'). if k' = k then (k', v) else (k', v')) ps) = fst ` set ps"
      using update_keys [of k v ps] by (metis set_map)
    with np True show ?thesis
      by (simp add: obj_set_cases insert_absorb del: set_map map_of_append)
  next
    case nin: False
    show ?thesis
    proof (cases "is_array_index k")
      case True
      with np nin show ?thesis
        by (simp add: obj_set_cases insert_index_keys del: set_map map_of_append)
    next
      case False
      have "fst ` set (ps @ [(k, v)]) = insert k (fst ` set ps)" by auto
      with False np nin show ?thesis
        by (simp add: obj_set_cases del: set_map map_of_append)
    qed
  qed
qed

lemma obj_set_distinct: "distinct (map fst ps) \<Longrightarrow> distinct (map fst (obj_set ps k v))"
proof -
  assume d: "distinct (map fst ps)"
  show ?thesis
  proof (cases "k = ''__proto__''")
    case True
    with d show ?thesis by (simp add: obj_set_cases)
  next
    case np: False
    show ?thesis
    proof (cases "k \<in> fst ` set ps")
      case True
      with np d show ?thesis by (simp add: obj_set_cases update_keys' del: set_map map_of_append)
    next
      case nin: False
      show ?thesis
      proof (cases "is_array_index k")
        case True
        with np nin d show ?thesis
          by (simp add: obj_set_cases insert_index_distinct del: set_map map_of_append)
      next
        case False
        have "distinct (map fst (ps @ [(k, v)]))" using d nin by auto
        with False np nin show ?thesis
          by (simp add: obj_set_cases del: set_map map_of_append)
      qed
    qed
  qed
qed

lemma obj_set_other:
  "filter (\<lambda>x. \<not> is_array_index x) (map fst (obj_set ps k v)) =
     (if k = ''__proto__'' \<or> k \<in> fst ` set ps \<or> is_array_index k
      then filter (\<lambda>x. \<not> is_array_index x) (map fst ps)
      else filter (\<lambda>x. \<not> is_array_index x) (map fst ps) @ [k])"
proof (cases "k = ''__proto__''")
  case True
  then show ?thesis by (simp add: obj_set_cases)
next
  case np: False
  show ?thesis
  proof (cases "k \<in> fst ` set ps")
    case True
    with np show ?thesis by (simp add: obj_set_cases update_keys')
  next
    case nin: False
    show ?thesis
    proof (cases "is_array_index k")
      case True
      with np nin show ?thesis by (simp add: obj_set_cases insert_index_other)
    next
      case False
      with np nin show ?thesis by (simp add: obj_set_cases)
    qed
  qed
qed

lemma keys_ordered_Nil: "keys_ordered []"
  by (simp add: keys_ordered_def)

lemma keys_ordered_Cons:
  "keys_ordered ((k, v) # ps) \<longleftrightarrow>
     (if is_array_index k
      then keys_ordered ps \<and>
           (\<forall>x \<in> set (filter is_array_index (map fst ps)). digits_value k \<le> digits_value x)
      else (\<forall>x \<in> fst ` set ps. \<not> is_array_index x))"
proof (cases "is_array_index k")
  case True
  then show ?thesis by (auto simp: keys_ordered_def)
next
  case False
  let ?ks = "map fst ps"
  have "keys_ordered ((k, v) # ps) \<longleftrightarrow>
      k # ?ks = filter is_array_index ?ks @ k # filter (\<lambda>k. \<not> is_array_index k) ?ks \<and>
      sorted_wrt (\<lambda>a b. digits_value a \<le> digits_value b) (filter is_array_index ?ks)"
    using False by (simp add: keys_ordered_def)
  also have "\<dots> \<longleftrightarrow> (\<forall>x \<in> set ?ks. \<not> is_array_index x)"
  proof
    assume a: "k # ?ks = filter is_array_index ?ks @ k # filter (\<lambda>k. \<not> is_array_index k) ?ks \<and>
      sorted_wrt (\<lambda>a b. digits_value a \<le> digits_value b) (filter is_array_index ?ks)"
    have "filter is_array_index ?ks = []"
    proof (cases "filter is_array_index ?ks")
      case Nil
      then show ?thesis .
    next
      case (Cons x xs)
      with a have "k = x" by simp
      moreover have "x \<in> set (filter is_array_index ?ks)" using Cons by simp
      ultimately have "is_array_index k" by simp
      with False show ?thesis by simp
    qed
    then show "\<forall>x \<in> set ?ks. \<not> is_array_index x" by (simp add: filter_empty_conv)
  next
    assume a: "\<forall>x \<in> set ?ks. \<not> is_array_index x"
    then have "filter is_array_index ?ks = []" by (simp add: filter_empty_conv)
    moreover from a have "filter (\<lambda>k. \<not> is_array_index k) ?ks = ?ks" by (simp add: filter_id_conv)
    ultimately show "k # ?ks = filter is_array_index ?ks @ k # filter (\<lambda>k. \<not> is_array_index k) ?ks \<and>
      sorted_wrt (\<lambda>a b. digits_value a \<le> digits_value b) (filter is_array_index ?ks)"
      by simp
  qed
  finally show ?thesis using False by simp
qed

lemma keys_ordered_tail: "keys_ordered (p # ps) \<Longrightarrow> keys_ordered ps"
proof -
  assume a: "keys_ordered (p # ps)"
  obtain k v where p: "p = (k, v)" by (cases p)
  show ?thesis
  proof (cases "is_array_index k")
    case True
    with a p show ?thesis by (simp add: keys_ordered_Cons)
  next
    case False
    with a p have n: "\<forall>x \<in> set (map fst ps). \<not> is_array_index x" by (simp add: keys_ordered_Cons)
    then have "filter is_array_index (map fst ps) = []" by (simp add: filter_empty_conv)
    moreover from n have "filter (\<lambda>k. \<not> is_array_index k) (map fst ps) = map fst ps"
      by (simp add: filter_id_conv)
    ultimately show ?thesis by (simp add: keys_ordered_def)
  qed
qed

lemma insert_index_index_keys:
  "is_array_index k \<Longrightarrow>
     set (filter is_array_index (map fst (insert_index k v ps))) =
     insert k (set (filter is_array_index (map fst ps)))"
  using insert_index_keys [of k v ps] by auto

lemma insert_index_ordered:
  "is_array_index k \<Longrightarrow> keys_ordered ps \<Longrightarrow> keys_ordered (insert_index k v ps)"
proof (induction ps)
  case Nil
  then show ?case by (simp add: keys_ordered_Cons keys_ordered_Nil)
next
  case (Cons p ps)
  obtain k' v' where p: "p = (k', v')" by (cases p)
  from Cons.prems(2) have t: "keys_ordered ps" by (rule keys_ordered_tail)
  show ?case
  proof (cases "is_array_index k' \<and> digits_value k' < digits_value k")
    case True
    from Cons.prems(2) p True
    have le: "\<forall>x \<in> set (filter is_array_index (map fst ps)). digits_value k' \<le> digits_value x"
      by (simp add: keys_ordered_Cons)
    have "\<forall>x \<in> set (filter is_array_index (map fst (insert_index k v ps))).
        digits_value k' \<le> digits_value x"
      unfolding insert_index_index_keys [OF Cons.prems(1)] using le True by auto
    with True p Cons.IH [OF Cons.prems(1) t] show ?thesis
      by (simp add: keys_ordered_Cons)
  next
    case False
    have "\<forall>x \<in> set (filter is_array_index (map fst (p # ps))). digits_value k \<le> digits_value x"
    proof (cases "is_array_index k'")
      case True
      with False have a: "digits_value k \<le> digits_value k'" by simp
      from Cons.prems(2) p True
      have "\<forall>x \<in> set (filter is_array_index (map fst ps)). digits_value k' \<le> digits_value x"
        by (simp add: keys_ordered_Cons)
      with a True p show ?thesis by auto
    next
      case ni: False
      with Cons.prems(2) p have "\<forall>x \<in> fst ` set ps. \<not> is_array_index x"
        by (simp add: keys_ordered_Cons)
      with ni p show ?thesis by auto
    qed
    with False p Cons.prems show ?thesis
      using keys_ordered_Cons [of k v "p # ps"] by auto
  qed
qed

lemma append_ordered:
  "\<not> is_array_index k \<Longrightarrow> keys_ordered ps \<Longrightarrow> keys_ordered (ps @ [(k, v)])"
proof -
  assume a: "\<not> is_array_index k" "keys_ordered ps"
  let ?ks = "map fst ps"
  from a(2) have e: "?ks = filter is_array_index ?ks @ filter (\<lambda>k. \<not> is_array_index k) ?ks"
    and s: "sorted_wrt (\<lambda>a b. digits_value a \<le> digits_value b) (filter is_array_index ?ks)"
    by (simp_all add: keys_ordered_def)
  from e have "?ks @ [k] = filter is_array_index ?ks @ filter (\<lambda>k. \<not> is_array_index k) ?ks @ [k]"
    by (metis append.assoc)
  with a(1) s show ?thesis by (simp add: keys_ordered_def)
qed

lemma obj_set_ordered: "keys_ordered ps \<Longrightarrow> keys_ordered (obj_set ps k v)"
proof -
  assume o: "keys_ordered ps"
  show ?thesis
  proof (cases "k = ''__proto__''")
    case True
    with o show ?thesis by (simp add: obj_set_cases)
  next
    case np: False
    show ?thesis
    proof (cases "k \<in> fst ` set ps")
      case True
      with np o show ?thesis by (simp add: obj_set_cases keys_ordered_def update_keys')
    next
      case nin: False
      show ?thesis
      proof (cases "is_array_index k")
        case True
        with np nin o show ?thesis by (simp add: obj_set_cases insert_index_ordered)
      next
        case False
        with np nin o show ?thesis by (simp add: obj_set_cases append_ordered del: map_append)
      qed
    qed
  qed
qed

lemma first_seen_set: "set (first_seen ks) = set ks"
  by (induction ks) auto

lemma first_seen_snoc:
  "first_seen (ks @ [k]) = (if k \<in> set ks then first_seen ks else first_seen ks @ [k])"
proof (induction ks)
  case Nil
  show ?case by simp
next
  case (Cons a ks)
  show ?case
  proof (cases "k = a")
    case True
    have "filter (\<lambda>x. x \<noteq> a) (first_seen ks @ [a]) = filter (\<lambda>x. x \<noteq> a) (first_seen ks)"
      by simp
    with True Cons.IH show ?thesis by (simp add: first_seen_set)
  next
    case False
    with Cons.IH show ?thesis by (simp add: first_seen_set)
  qed
qed

lemma first_seen_distinct: "distinct (first_seen ks)"
  by (induction ks) (auto simp: first_seen_set)

lemma store_keys:
  "fst ` set (foldl (\<lambda>ps (k, v). obj_set ps k (JStr v)) ps0 kvs) =
     fst ` set ps0 \<union> (fst ` set kvs - {''__proto__''})"
proof (induction kvs arbitrary: ps0)
  case Nil
  show ?case by simp
next
  case (Cons p kvs)
  obtain k v where p: "p = (k, v)" by (cases p)
  show ?case
    unfolding p foldl_Cons prod.case Cons.IH obj_set_keys by auto
qed

lemma store_map_of:
  "map_of (foldl (\<lambda>ps (k, v). obj_set ps k (JStr v)) ps0 kvs) k =
     (if k = ''__proto__'' then map_of ps0 k
      else case map_of (rev kvs) k of Some v \<Rightarrow> Some (JStr v) | None \<Rightarrow> map_of ps0 k)"
proof (induction kvs arbitrary: ps0)
  case Nil
  show ?case by simp
next
  case (Cons p kvs)
  obtain k1 v1 where p: "p = (k1, v1)" by (cases p)
  have r: "map_of (rev (p # kvs)) k =
      (case map_of (rev kvs) k of Some v \<Rightarrow> Some v | None \<Rightarrow> if k = k1 then Some v1 else None)"
    unfolding p by (simp add: map_add_def split: option.splits)
  show ?case
    unfolding foldl_Cons Cons.IH r unfolding p prod.case obj_set_map_of
    by (auto split: option.splits)
qed

lemma store_distinct:
  "distinct (map fst ps0) \<Longrightarrow>
     distinct (map fst (foldl (\<lambda>ps (k, v). obj_set ps k (JStr v)) ps0 kvs))"
proof (induction kvs arbitrary: ps0)
  case Nil
  then show ?case by simp
next
  case (Cons p kvs)
  obtain k v where p: "p = (k, v)" by (cases p)
  from Cons.prems have "distinct (map fst (obj_set ps0 k (JStr v)))" by (rule obj_set_distinct)
  from Cons.IH [OF this] show ?case unfolding p by simp
qed

lemma store_ordered:
  "keys_ordered ps0 \<Longrightarrow> keys_ordered (foldl (\<lambda>ps (k, v). obj_set ps k (JStr v)) ps0 kvs)"
proof (induction kvs arbitrary: ps0)
  case Nil
  then show ?case by simp
next
  case (Cons p kvs)
  obtain k v where p: "p = (k, v)" by (cases p)
  from Cons.prems have "keys_ordered (obj_set ps0 k (JStr v))" by (rule obj_set_ordered)
  from Cons.IH [OF this] show ?case unfolding p by simp
qed

lemma store_first_seen:
  "filter (\<lambda>x. \<not> is_array_index x) (map fst (foldl (\<lambda>ps (k, v). obj_set ps k (JStr v)) [] kvs)) =
     first_seen (filter (\<lambda>x. \<not> is_array_index x \<and> x \<noteq> ''__proto__'') (map fst kvs))"
proof (induction kvs rule: rev_induct)
  case Nil
  show ?case by simp
next
  case (snoc p kvs)
  obtain k v where p: "p = (k, v)" by (cases p)
  let ?ps = "foldl (\<lambda>ps (k, v). obj_set ps k (JStr v)) [] kvs"
  let ?Q = "\<lambda>x. \<not> is_array_index x \<and> x \<noteq> ''__proto__''"
  have keys: "fst ` set ?ps = fst ` set kvs - {''__proto__''}"
    using store_keys [of "[]" kvs] by simp
  have f: "foldl (\<lambda>ps (k, v). obj_set ps k (JStr v)) [] (kvs @ [p]) = obj_set ?ps k (JStr v)"
    unfolding p by simp
  show ?case
  proof (cases "?Q k")
    case True
    have m: "k \<in> set (filter ?Q (map fst kvs)) \<longleftrightarrow> k \<in> fst ` set ?ps"
      using True keys by auto
    show ?thesis
      unfolding f obj_set_other
      using True m snoc.IH p by (simp add: first_seen_snoc)
  next
    case False
    then show ?thesis
      unfolding f obj_set_other using snoc.IH p by auto
  qed
qed

section \<open>The parameters of the code environment\<close>

text \<open>
  A literal whose first character does not occur again in it cannot begin inside a text
  that does not hold it and end in a following text that starts with that character.
\<close>

lemma no_straddle:
  assumes "\<not> sublist (c # p) a" and "c \<notin> set p" and "s = [] \<or> hd s = c" and "i < length a"
  shows "\<not> prefix (c # p) (drop i a @ s)"
proof
  assume "prefix (c # p) (drop i a @ s)"
  then have "prefix (c # p) (drop i a) \<or> (\<exists>us. c # p = drop i a @ us \<and> prefix us s)"
    by (simp only: prefix_append)
  then show False
  proof
    assume "prefix (c # p) (drop i a)"
    then obtain zs where "drop i a = (c # p) @ zs" unfolding prefix_def by blast
    then have "a = take i a @ (c # p) @ zs" by (metis append_take_drop_id)
    then have "sublist (c # p) a" unfolding sublist_def by blast
    with assms(1) show False by simp
  next
    assume "\<exists>us. c # p = drop i a @ us \<and> prefix us s"
    then obtain us where us: "c # p = drop i a @ us" "prefix us s" by blast
    from assms(4) obtain x xs where d: "drop i a = x # xs" by (cases "drop i a") auto
    with us(1) have e: "p = xs @ us" by simp
    show False
    proof (cases us)
      case Nil
      with us(1) have "drop i a = (c # p) @ []" by simp
      then have "a = take i a @ (c # p) @ []" by (metis append_take_drop_id)
      then have "sublist (c # p) a" unfolding sublist_def by blast
      with assms(1) show False by simp
    next
      case (Cons u us')
      with us(2) obtain s' where "s = u # s'" by (cases s) (auto simp: prefix_def)
      with assms(3) have "u = c" by simp
      with Cons e have "c \<in> set p" by simp
      with assms(2) show False by simp
    qed
  qed
qed

lemma no_marker_start:
  assumes "\<not> sublist ''<parameter='' a" and "s = [] \<or> hd s = CHR ''<''" and "i < length a"
  shows "marker_at ''<parameter='' (drop i (a @ s)) = None"
proof -
  have n: "CHR ''<'' \<notin> set ''parameter=''" by simp
  have "\<not> prefix ''<parameter='' (drop i a @ s)"
    using assms(1) n assms(2,3) by (rule no_straddle)
  moreover have "drop i (a @ s) = drop i a @ s" using assms(3) by simp
  ultimately show ?thesis unfolding marker_at_def by (simp only: if_False)
qed

lemma match_marker_skip:
  "\<forall>i < length a. marker_at m (drop i (a @ s)) = None \<Longrightarrow> match_marker m (a @ s) = match_marker m s"
proof (induction a)
  case Nil
  show ?case by simp
next
  case (Cons x a)
  have "0 < length (x # a)" by simp
  with Cons.prems have "marker_at m (drop 0 ((x # a) @ s)) = None" by blast
  then have 0: "marker_at m (x # a @ s) = None" by simp
  have "\<forall>i < length a. marker_at m (drop i (a @ s)) = None"
  proof (intro allI impI)
    fix i assume "i < length a"
    then have "Suc i < length (x # a)" by simp
    with Cons.prems have "marker_at m (drop (Suc i) ((x # a) @ s)) = None" by blast
    then show "marker_at m (drop i (a @ s)) = None" by simp
  qed
  from Cons.IH [OF this] 0 show ?case by simp
qed

lemma match_marker_after_junk:
  assumes "\<not> sublist ''<parameter='' a" and "s = [] \<or> hd s = CHR ''<''"
  shows "match_marker ''<parameter='' (a @ s) = match_marker ''<parameter='' s"
proof (rule match_marker_skip, intro allI impI)
  fix i assume "i < length a"
  then show "marker_at ''<parameter='' (drop i (a @ s)) = None"
    by (rule no_marker_start [OF assms])
qed

lemma match_marker_at_start:
  "g \<noteq> [] \<Longrightarrow> CHR ''>'' \<notin> set g \<Longrightarrow> match_marker m (m @ g @ ''>'' @ r) = Some (g, r)"
proof -
  assume a: "g \<noteq> []" "CHR ''>'' \<notin> set g"
  then have "marker_at m (m @ g @ ''>'' @ r) = Some (g, r)" by (simp add: marker_at_Some_iff)
  moreover from a have "m @ g @ ''>'' @ r \<noteq> []" by simp
  ultimately show ?thesis by (cases "m @ g @ ''>'' @ r") simp_all
qed

lemma match_marker_none_in_junk:
  assumes "\<not> sublist ''<parameter='' a"
  shows "match_marker ''<parameter='' a = None"
proof -
  have "match_marker ''<parameter='' (a @ []) = match_marker ''<parameter='' []"
    by (rule match_marker_after_junk [OF assms]) simp
  then show ?thesis by simp
qed

lemma value_run:
  "CHR ''<'' \<notin> set v \<Longrightarrow> s = [] \<or> hd s = CHR ''<'' \<Longrightarrow>
     takeWhile (\<lambda>c. c \<noteq> CHR ''<'') (v @ s) = v \<and> dropWhile (\<lambda>c. c \<noteq> CHR ''<'') (v @ s) = s"
proof -
  assume a: "CHR ''<'' \<notin> set v" "s = [] \<or> hd s = CHR ''<''"
  show ?thesis
  proof (cases s)
    case Nil
    with a show ?thesis by (simp add: takeWhile_eq_all_conv dropWhile_eq_Nil_conv) auto
  next
    case (Cons x xs)
    with a have x: "x = CHR ''<''" by simp
    have "\<forall>y \<in> set v. y \<noteq> CHR ''<''" using a(1) by auto
    then have "takeWhile (\<lambda>c. c \<noteq> CHR ''<'') (v @ CHR ''<'' # xs) = v \<and>
        dropWhile (\<lambda>c. c \<noteq> CHR ''<'') (v @ CHR ''<'' # xs) = CHR ''<'' # xs"
      by (rule takeWhile_stop) simp
    with Cons x show ?thesis by simp
  qed
qed

lemma rendered_starts:
  "concat (map render_param cs) = [] \<or> hd (concat (map render_param cs)) = CHR ''<''"
  by (cases cs) (auto simp: render_param_def split: prod.splits)

lemma parameterMatches_chunks:
  assumes "\<not> sublist ''<parameter='' j0" and "\<forall>c \<in> set cs. well_formed_param c"
  shows "parameterMatches (j0 @ concat (map render_param cs)) = map (\<lambda>(k, v, j). (k, v)) cs"
  using assms(1,2)
proof (induction cs arbitrary: j0)
  case Nil
  then have "match_marker ''<parameter='' j0 = None" by (simp add: match_marker_none_in_junk)
  then show ?case by (subst parameterMatches.simps) simp
next
  case (Cons c cs)
  obtain k v j where c: "c = (k, v, j)" by (cases c)
  let ?rest = "concat (map render_param cs)"
  from Cons.prems c have w: "k \<noteq> []" "CHR ''>'' \<notin> set k" "CHR ''<'' \<notin> set v"
      "j = [] \<or> hd j = CHR ''<''" "\<not> sublist ''<parameter='' j"
    by (simp_all add: well_formed_param_def)
  have s: "concat (map render_param (c # cs)) = ''<parameter='' @ k @ ''>'' @ (v @ j @ ?rest)"
    by (simp add: c render_param_def)
  have "match_marker ''<parameter='' (j0 @ concat (map render_param (c # cs))) =
      match_marker ''<parameter='' (concat (map render_param (c # cs)))"
    by (rule match_marker_after_junk [OF Cons.prems(1)]) (rule rendered_starts)
  also have "\<dots> = Some (k, v @ j @ ?rest)"
    unfolding s using w(1,2) by (rule match_marker_at_start)
  finally have m: "match_marker ''<parameter='' (j0 @ concat (map render_param (c # cs))) =
      Some (k, v @ j @ ?rest)" .
  have st: "j @ ?rest = [] \<or> hd (j @ ?rest) = CHR ''<''"
    using w(4) rendered_starts [of cs] by (cases j) auto
  note vr = value_run [OF w(3) st]
  have ih: "parameterMatches (j @ ?rest) = map (\<lambda>(k, v, j). (k, v)) cs"
    using Cons.IH [OF w(5)] Cons.prems(2) by simp
  show ?case
    by (subst parameterMatches.simps, subst m) (simp add: vr ih c)
qed

end
